theory Spec2Isabelle
  imports Main
begin

section \<open>Strings\<close>

text \<open>
  A JavaScript string is modelled as a HOL \<open>string\<close>, the list of the bytes of its UTF-8
  encoding. On ASCII text the two notions of character agree. The case mappings
  \<open>toLowerCase\<close> and \<open>toUpperCase\<close> are modelled on the ASCII letters; the theorems that
  depend on them are stated for ASCII keys.
\<close>

definition code :: "char \<Rightarrow> nat" where
  "code c = of_char c"

definition isUpperAZ :: "char \<Rightarrow> bool" where
  "isUpperAZ c = (65 \<le> code c \<and> code c \<le> 90)"

definition isLowerAZ :: "char \<Rightarrow> bool" where
  "isLowerAZ c = (97 \<le> code c \<and> code c \<le> 122)"

definition isDigit :: "char \<Rightarrow> bool" where
  "isDigit c = (48 \<le> code c \<and> code c \<le> 57)"

definition isAscii :: "char \<Rightarrow> bool" where
  "isAscii c = (code c < 128)"

definition toLowerChar :: "char \<Rightarrow> char" where
  "toLowerChar c = (if isUpperAZ c then char_of (code c + 32) else c)"

definition toUpperChar :: "char \<Rightarrow> char" where
  "toUpperChar c = (if isLowerAZ c then char_of (code c - 32) else c)"

definition toLowerCase :: "string \<Rightarrow> string" where
  "toLowerCase s = map toLowerChar s"

text \<open>\<open>s.startsWith(p)\<close>.\<close>

definition startsWith :: "string \<Rightarrow> string \<Rightarrow> bool" where
  "startsWith s p = (take (length p) s = p)"

text \<open>\<open>s.includes(c)\<close> for a one-character needle.\<close>

definition str_includes :: "string \<Rightarrow> char \<Rightarrow> bool" where
  "str_includes s c = (c \<in> set s)"

section \<open>Key conversion (core/keys.ts)\<close>

datatype KeyFormat = snake_case | camelCase

text \<open>
  The two tables of the standard keys. The test \<open>key in TABLE\<close> of the converters is read as
  a lookup among the entries of the table. The names that every object inherits
  (\<open>constructor\<close>, \<open>toString\<close> and the like) also pass the test of the source, which then
  returns the inherited value; the model converts such a name like any other key.
\<close>

definition SNAKE_TO_CAMEL :: "(string \<times> string) list" where
  "SNAKE_TO_CAMEL =
    [(''utm_source'', ''utmSource''),
     (''utm_medium'', ''utmMedium''),
     (''utm_campaign'', ''utmCampaign''),
     (''utm_term'', ''utmTerm''),
     (''utm_content'', ''utmContent''),
     (''utm_id'', ''utmId'')]"

definition CAMEL_TO_SNAKE :: "(string \<times> string) list" where
  "CAMEL_TO_SNAKE =
    [(''utmSource'', ''utm_source''),
     (''utmMedium'', ''utm_medium''),
     (''utmCampaign'', ''utm_campaign''),
     (''utmTerm'', ''utm_term''),
     (''utmContent'', ''utm_content''),
     (''utmId'', ''utm_id'')]"

text \<open>\<open>rest.replace(/([A-Z])/g, '_$1')\<close>: an underscore before every upper-case letter.\<close>

fun underscoreUpper :: "string \<Rightarrow> string" where
  "underscoreUpper [] = []"
| "underscoreUpper (c # s) =
     (if isUpperAZ c then CHR ''_'' # c # underscoreUpper s else c # underscoreUpper s)"

text \<open>
  \<open>rest.replace(/_([a-z])/g, (_, char) => char.toUpperCase())\<close>: the matches are found
  from left to right and do not overlap.
\<close>

fun upperAfterUnderscore :: "string \<Rightarrow> string" where
  "upperAfterUnderscore [] = []"
| "upperAfterUnderscore [c] = [c]"
| "upperAfterUnderscore (c # d # s) =
     (if c = CHR ''_'' \<and> isLowerAZ d then toUpperChar d # upperAfterUnderscore s
      else c # upperAfterUnderscore (d # s))"

text \<open>\<open>s.charAt(0).toUpperCase() + s.slice(1)\<close>.\<close>

fun capitalize :: "string \<Rightarrow> string" where
  "capitalize [] = []"
| "capitalize (c # s) = toUpperChar c # s"

definition toSnakeCase :: "string \<Rightarrow> string" where
  "toSnakeCase key =
     (case map_of CAMEL_TO_SNAKE key of
        Some v \<Rightarrow> v
      | None \<Rightarrow>
          if startsWith key ''utm'' \<and> length key > 3
          then ''utm'' @ toLowerCase (underscoreUpper (drop 3 key))
          else key)"

definition toCamelCase :: "string \<Rightarrow> string" where
  "toCamelCase key =
     (case map_of SNAKE_TO_CAMEL key of
        Some v \<Rightarrow> v
      | None \<Rightarrow>
          if startsWith key ''utm_'' \<and> length key > 4
          then ''utm'' @ capitalize (upperAfterUnderscore (drop 4 key))
          else key)"

definition isSnakeCaseUtmKey :: "string \<Rightarrow> bool" where
  "isSnakeCaseUtmKey key = startsWith key ''utm_''"

definition isCamelCaseUtmKey :: "string \<Rightarrow> bool" where
  "isCamelCaseUtmKey key =
     (if \<not> startsWith key ''utm'' \<or> length key \<le> 3 then False
      else isUpperAZ (key ! 3))"

definition isUtmKey :: "string \<Rightarrow> bool" where
  "isUtmKey key = (isSnakeCaseUtmKey key \<or> isCamelCaseUtmKey key)"

section \<open>Parameter objects\<close>

text \<open>
  A parameter object (\<open>UtmParameters\<close>) is a JavaScript object read through
  \<open>Object.entries\<close>: a list of entries in insertion order with pairwise distinct keys. The
  value \<open>None\<close> stands for \<open>undefined\<close>. The keys met here are not array indices, so insertion
  order is the enumeration order.
\<close>

type_synonym UtmParameters = "(string \<times> string option) list"

text \<open>\<open>obj[key] = value\<close>: an existing property keeps its place, a new one goes last.\<close>

fun obj_set :: "('k \<times> 'v) list \<Rightarrow> 'k \<Rightarrow> 'v \<Rightarrow> ('k \<times> 'v) list" where
  "obj_set [] k v = [(k, v)]"
| "obj_set ((k', v') # r) k v =
     (if k' = k then (k, v) # r else (k', v') # obj_set r k v)"

definition convertParams :: "UtmParameters \<Rightarrow> KeyFormat \<Rightarrow> UtmParameters" where
  "convertParams params targetFormat =
     (let converter = (if targetFormat = snake_case then toSnakeCase else toCamelCase)
      in fold (\<lambda>(key, value) result.
                 case value of
                   None \<Rightarrow> result
                 | Some v \<Rightarrow> obj_set result (converter key) (Some v))
              params [])"

definition toSnakeCaseParams :: "UtmParameters \<Rightarrow> UtmParameters" where
  "toSnakeCaseParams params = convertParams params snake_case"

definition toCamelCaseParams :: "UtmParameters \<Rightarrow> UtmParameters" where
  "toCamelCaseParams params = convertParams params camelCase"

text \<open>
  \<open>isValidUtmParameters\<close> on a value that is a parameter object: the checks that the value
  is a non-null, non-array object hold by its type.
\<close>

definition isValidUtmParameters :: "UtmParameters \<Rightarrow> KeyFormat option \<Rightarrow> bool" where
  "isValidUtmParameters obj format =
     (if length obj = 0 then True
      else list_all (\<lambda>(key, value).
             if format = Some snake_case then isSnakeCaseUtmKey key
             else if format = Some camelCase then isCamelCaseUtmKey key
             else isUtmKey key) obj)"

section \<open>The platform: percent-encoding and URLSearchParams\<close>

text \<open>Upper-case hexadecimal digits, as \<open>encodeURIComponent\<close> and the URL serializers emit.\<close>

definition hexDigit :: "nat \<Rightarrow> char" where
  "hexDigit n = (if n < 10 then char_of (48 + n) else char_of (55 + n))"

definition percentByte :: "char \<Rightarrow> string" where
  "percentByte c = [CHR ''%'', hexDigit (code c div 16), hexDigit (code c mod 16)]"

definition isHexDigit :: "char \<Rightarrow> bool" where
  "isHexDigit c =
     (isDigit c \<or> (65 \<le> code c \<and> code c \<le> 70) \<or> (97 \<le> code c \<and> code c \<le> 102))"

definition hexValue :: "char \<Rightarrow> nat" where
  "hexValue c =
     (if isDigit c then code c - 48
      else if 65 \<le> code c \<and> code c \<le> 70 then code c - 55
      else code c - 87)"

text \<open>
  \<open>encodeURIComponent\<close>: every byte of the UTF-8 encoding is escaped except the letters, the
  digits and \<open>- _ . ! ~ * ' ( )\<close>.
\<close>

definition uriUnreserved :: "char \<Rightarrow> bool" where
  "uriUnreserved c =
     (isUpperAZ c \<or> isLowerAZ c \<or> isDigit c \<or> c \<in> set ''-_.!~*()'' \<or> code c = 39)"

definition encodeURIComponent :: "string \<Rightarrow> string" where
  "encodeURIComponent s =
     concat (map (\<lambda>c. if uriUnreserved c then [c] else percentByte c) s)"

text \<open>
  The \<open>application/x-www-form-urlencoded\<close> serializer of the URL standard, which
  \<open>URLSearchParams.toString\<close> runs: letters, digits and \<open>* - . _\<close> are kept, a space becomes
  \<open>+\<close>, every other byte is escaped; a pair is always written \<open>name=value\<close>.
\<close>

definition formUnreserved :: "char \<Rightarrow> bool" where
  "formUnreserved c = (isUpperAZ c \<or> isLowerAZ c \<or> isDigit c \<or> c \<in> set ''*-._'')"

definition formEncode :: "string \<Rightarrow> string" where
  "formEncode s =
     concat (map (\<lambda>c. if formUnreserved c then [c]
                       else if c = CHR '' '' then ''+''
                       else percentByte c) s)"

text \<open>\<open>parts.join(sep)\<close>.\<close>

fun join :: "string \<Rightarrow> string list \<Rightarrow> string" where
  "join sep [] = []"
| "join sep [x] = x"
| "join sep (x # y # r) = x @ sep @ join sep (y # r)"

type_synonym URLSearchParams = "(string \<times> string) list"

definition usp_toString :: "URLSearchParams \<Rightarrow> string" where
  "usp_toString l = join ''&'' (map (\<lambda>(k, v). formEncode k @ ''='' @ formEncode v) l)"

text \<open>
  The parser of the same format: split at \<open>&\<close>, then at the first \<open>=\<close>, then decode. The
  decoded bytes are kept as they are; the platform reads them as UTF-8 and replaces an
  ill-formed sequence by U+FFFD, which is not modelled. Names and values that are
  well-formed UTF-8 are read alike.
\<close>

fun split_on :: "char \<Rightarrow> string \<Rightarrow> string list" where
  "split_on c [] = [[]]"
| "split_on c (x # xs) =
     (if x = c then [] # split_on c xs
      else (case split_on c xs of
              [] \<Rightarrow> [[x]]
            | y # ys \<Rightarrow> (x # y) # ys))"

fun percentDecode :: "string \<Rightarrow> string" where
  "percentDecode (c # h1 # h2 # r) =
     (if c = CHR ''%'' \<and> isHexDigit h1 \<and> isHexDigit h2
      then char_of (16 * hexValue h1 + hexValue h2) # percentDecode r
      else c # percentDecode (h1 # h2 # r))"
| "percentDecode (c # r) = c # percentDecode r"
| "percentDecode [] = []"

definition plusToSpace :: "string \<Rightarrow> string" where
  "plusToSpace s = map (\<lambda>c. if c = CHR ''+'' then CHR '' '' else c) s"

definition formDecode :: "string \<Rightarrow> string" where
  "formDecode s = percentDecode (plusToSpace s)"

definition parsePair :: "string \<Rightarrow> string \<times> string" where
  "parsePair seq =
     (if str_includes seq (CHR ''='')
      then (formDecode (takeWhile (\<lambda>c. c \<noteq> CHR ''='') seq),
            formDecode (drop 1 (dropWhile (\<lambda>c. c \<noteq> CHR ''='') seq)))
      else (formDecode seq, []))"

definition urlencoded_parse :: "string \<Rightarrow> URLSearchParams" where
  "urlencoded_parse input =
     map parsePair (filter (\<lambda>seq. seq \<noteq> []) (split_on (CHR ''&'') input))"

text \<open>\<open>new URLSearchParams(init)\<close> for a string: one leading \<open>?\<close> is dropped.\<close>

definition new_URLSearchParams :: "string \<Rightarrow> URLSearchParams" where
  "new_URLSearchParams init =
     urlencoded_parse (if startsWith init ''?'' then drop 1 init else init)"

definition usp_delete :: "string \<Rightarrow> URLSearchParams \<Rightarrow> URLSearchParams" where
  "usp_delete name l = filter (\<lambda>(k, v). k \<noteq> name) l"

definition usp_has :: "string \<Rightarrow> URLSearchParams \<Rightarrow> bool" where
  "usp_has name l = list_ex (\<lambda>(k, v). k = name) l"

text \<open>
  \<open>set(name, value)\<close>: the first pair of that name takes the value and the others go; with no
  such pair the new one is appended.
\<close>

fun usp_set :: "string \<Rightarrow> string \<Rightarrow> URLSearchParams \<Rightarrow> URLSearchParams" where
  "usp_set name val [] = [(name, val)]"
| "usp_set name val ((k, v) # r) =
     (if k = name then (name, val) # usp_delete name r else (k, v) # usp_set name val r)"

section \<open>The platform: URL objects\<close>

text \<open>
  The state of a parsed \<open>URL\<close> object, as the URL standard keeps it: the scheme, the
  credentials, the host with its port (\<open>None\<close> for a URL without host), the serialized path,
  and the query and the fragment, each \<open>None\<close> when the URL has none. The constructor
  \<open>new URL(url)\<close> is a parameter \<open>parse\<close> of the functions that call it; it answers \<open>None\<close>
  where the constructor throws. The standard trims trailing spaces of an opaque path when
  query and fragment are both removed; the setters below leave the path as it is.
\<close>

record URL =
  scheme :: string
  username :: string
  password :: string
  hostport :: "string option"
  path :: string
  query :: "string option"
  fragment :: "string option"

definition protocol :: "URL \<Rightarrow> string" where
  "protocol u = scheme u @ '':''"

definition host :: "URL \<Rightarrow> string" where
  "host u = (case hostport u of None \<Rightarrow> [] | Some h \<Rightarrow> h)"

definition pathname :: "URL \<Rightarrow> string" where
  "pathname u = path u"

definition hash :: "URL \<Rightarrow> string" where
  "hash u = (case fragment u of None \<Rightarrow> [] | Some f \<Rightarrow> if f = [] then [] else ''#'' @ f)"

definition searchParams :: "URL \<Rightarrow> URLSearchParams" where
  "searchParams u = urlencoded_parse (case query u of None \<Rightarrow> [] | Some q \<Rightarrow> q)"

text \<open>
  The \<open>hash\<close> setter: an empty value removes the fragment; otherwise one leading \<open>#\<close> is
  dropped, tabs and newlines are removed, and the bytes of the fragment percent-encode set
  (controls, non-ASCII, space, \<open>"\<close>, \<open><\<close>, \<open>>\<close> and the backquote) are escaped.
\<close>

definition fragmentEscaped :: "char \<Rightarrow> bool" where
  "fragmentEscaped c = (code c < 32 \<or> code c > 126 \<or> code c \<in> {32, 34, 60, 62, 96})"

definition set_hash :: "URL \<Rightarrow> string \<Rightarrow> URL" where
  "set_hash u v =
     (if v = [] then u\<lparr>fragment := None\<rparr>
      else
        let input = (if startsWith v ''#'' then drop 1 v else v);
            input' = filter (\<lambda>c. code c \<notin> {9, 10, 13}) input
        in u\<lparr>fragment :=
               Some (concat (map (\<lambda>c. if fragmentEscaped c then percentByte c else [c]) input'))\<rparr>)"

text \<open>
  A change of the \<open>searchParams\<close> list writes the query back: the serialized list, or no
  query at all when the serialization is empty.
\<close>

definition update_query :: "URL \<Rightarrow> URLSearchParams \<Rightarrow> URL" where
  "update_query u l =
     (let serializedQuery = usp_toString l
      in u\<lparr>query := (if serializedQuery = [] then None else Some serializedQuery)\<rparr>)"

text \<open>\<open>urlObj.toString()\<close>, the URL serializer.\<close>

definition URL_toString :: "URL \<Rightarrow> string" where
  "URL_toString u =
     scheme u @ '':'' @
     (case hostport u of
        Some h \<Rightarrow>
          ''//'' @
          (if username u \<noteq> [] \<or> password u \<noteq> []
           then username u @ (if password u \<noteq> [] then '':'' @ password u else []) @ ''@''
           else []) @ h
      | None \<Rightarrow> (if startsWith (path u) ''//'' then ''/.'' else [])) @
     path u @
     (case query u of None \<Rightarrow> [] | Some q \<Rightarrow> ''?'' @ q) @
     (case fragment u of None \<Rightarrow> [] | Some f \<Rightarrow> ''#'' @ f)"

section \<open>Injection (core/appender.ts)\<close>

definition buildQueryString :: "URLSearchParams \<Rightarrow> string" where
  "buildQueryString params =
     join ''&'' (map (\<lambda>(key, value).
                        if value = [] then encodeURIComponent key
                        else encodeURIComponent key @ ''='' @ encodeURIComponent value)
                     params)"

definition isAnyUtmKey :: "string \<Rightarrow> bool" where
  "isAnyUtmKey key = (isSnakeCaseUtmKey key \<or> isCamelCaseUtmKey key)"

definition hasValidUtmEntries :: "UtmParameters \<Rightarrow> bool" where
  "hasValidUtmEntries params =
     list_ex (\<lambda>(key, value). isAnyUtmKey key \<and> value \<noteq> None \<and> value \<noteq> Some []) params"

text \<open>
  The loop that both placements run over the entries of the parameter object, on the
  parameter list of the target location.
\<close>

definition writeParams :: "UtmParameters \<Rightarrow> bool \<Rightarrow> URLSearchParams \<Rightarrow> URLSearchParams" where
  "writeParams params preserveExisting target =
     fold (\<lambda>(key, value) sp.
             case value of
               None \<Rightarrow> sp
             | Some v \<Rightarrow>
                 if preserveExisting \<and> usp_has key sp then sp
                 else usp_set key v (usp_delete key sp))
          params target"

text \<open>
  The first block of \<open>appendToQuery\<close>: a fragment that contains \<open>=\<close> is read as parameters,
  the injected keys are deleted from it and it is written back.
\<close>

definition removeFromFragment :: "URL \<Rightarrow> UtmParameters \<Rightarrow> URL" where
  "removeFromFragment urlObj params =
     (if hash urlObj \<noteq> [] then
        let originalFragment = drop 1 (hash urlObj)
        in if str_includes originalFragment (CHR ''='') then
             let fragmentParams =
                   fold usp_delete (map fst params) (new_URLSearchParams originalFragment)
             in set_hash urlObj (usp_toString fragmentParams)
           else urlObj
      else urlObj)"

definition appendToQuery :: "URL \<Rightarrow> UtmParameters \<Rightarrow> bool \<Rightarrow> string" where
  "appendToQuery urlObj0 params preserveExisting =
     (let urlObj = removeFromFragment urlObj0 params;
          sp = writeParams params preserveExisting (searchParams urlObj);
          queryString = buildQueryString sp;
          baseUrl = protocol urlObj @ ''//'' @ host urlObj @ pathname urlObj;
          h = hash urlObj
      in baseUrl @
         (if queryString \<noteq> [] then ''?'' @ queryString else []) @
         (if h \<noteq> [] then (if startsWith h ''#'' then h else ''#'' @ h) else []))"

text \<open>
  The first loop of \<open>appendToFragment\<close>: every \<open>searchParams.delete\<close> writes the query
  back, whether or not it removed a pair.
\<close>

definition removeFromQuery :: "URL \<Rightarrow> UtmParameters \<Rightarrow> URL" where
  "removeFromQuery urlObj params =
     fst (fold (\<lambda>key (u, l). let l' = usp_delete key l in (update_query u l', l'))
               (map fst params) (urlObj, searchParams urlObj))"

text \<open>The URL object at the end of \<open>appendToFragment\<close>, which the function serializes.\<close>

definition fragmentResult :: "URL \<Rightarrow> UtmParameters \<Rightarrow> bool \<Rightarrow> URL" where
  "fragmentResult urlObj0 params preserveExisting =
     (let urlObj = removeFromQuery urlObj0 params;
          fragmentParams =
            writeParams params preserveExisting (new_URLSearchParams (drop 1 (hash urlObj)))
      in set_hash urlObj (buildQueryString fragmentParams))"

definition appendToFragment :: "URL \<Rightarrow> UtmParameters \<Rightarrow> bool \<Rightarrow> string" where
  "appendToFragment urlObj params preserveExisting =
     URL_toString (fragmentResult urlObj params preserveExisting)"

record AppendOptions =
  toFragment :: "bool option"
  preserveExisting :: "bool option"

definition orDefault :: "'a option \<Rightarrow> 'a \<Rightarrow> 'a" where
  "orDefault x d = (case x of None \<Rightarrow> d | Some v \<Rightarrow> v)"

text \<open>
  An environment without the \<open>URL\<close> constructor returns the input as a failed parse does;
  both are the answer \<open>None\<close> of \<open>parse\<close>.
\<close>

definition appendUtmParameters ::
  "(string \<Rightarrow> URL option) \<Rightarrow> string \<Rightarrow> UtmParameters \<Rightarrow> AppendOptions \<Rightarrow> string" where
  "appendUtmParameters parse url utmParams options =
     (if \<not> hasValidUtmEntries utmParams then url
      else
        let snakeParams = toSnakeCaseParams utmParams
        in case parse url of
             None \<Rightarrow> url
           | Some urlObj \<Rightarrow>
               if orDefault (toFragment options) False
               then appendToFragment urlObj snakeParams (orDefault (preserveExisting options) False)
               else appendToQuery urlObj snakeParams (orDefault (preserveExisting options) False))"

section \<open>Extraction (core/capture.ts)\<close>

record CaptureOptions =
  capture_keyFormat :: "KeyFormat option"
  allowedParameters :: "string list option"

text \<open>
  \<open>location_href\<close> is \<open>window.location.href\<close>, or \<open>None\<close> outside a browser.
\<close>

definition captureUtmParameters ::
  "(string \<Rightarrow> URL option) \<Rightarrow> string option \<Rightarrow> string option \<Rightarrow> CaptureOptions \<Rightarrow> UtmParameters" where
  "captureUtmParameters parse location_href url options =
     (let keyFormat = orDefault (capture_keyFormat options) snake_case;
          urlString = (case url of
                         Some u \<Rightarrow> u
                       | None \<Rightarrow> (case location_href of Some h \<Rightarrow> h | None \<Rightarrow> []))
      in if urlString = [] then []
         else case parse urlString of
                None \<Rightarrow> []
              | Some urlObj \<Rightarrow>
                  let allowedSet =
                        (case allowedParameters options of
                           None \<Rightarrow> None
                         | Some a \<Rightarrow> if length a > 0 then Some a else None);
                      params =
                        fold (\<lambda>(key, value) ps.
                                if isSnakeCaseUtmKey key then
                                  (if (case allowedSet of None \<Rightarrow> True | Some a \<Rightarrow> key \<in> set a)
                                   then obj_set ps key (Some value) else ps)
                                else ps)
                             (searchParams urlObj) []
                  in if keyFormat = camelCase then convertParams params camelCase else params)"

section \<open>The platform: JSON values and sessionStorage\<close>

text \<open>
  The values that \<open>JSON.parse\<close> returns. An object is the list of its entries. The
  function \<open>JSON.parse\<close> itself is a parameter of \<open>getStoredUtmParameters\<close>; it answers
  \<open>None\<close> where the platform throws a \<open>SyntaxError\<close>.
\<close>

datatype json =
    JNull
  | JBool bool
  | JNum string
  | JStr string
  | JArr "json list"
  | JObj "(string \<times> json) list"

text \<open>
  \<open>JSON.stringify\<close> on a parameter object: the properties with a string value, written
  \<open>"key":"value"\<close>; quotes, backslashes and control characters are escaped.
\<close>

definition hexLower :: "nat \<Rightarrow> char" where
  "hexLower n = (if n < 10 then char_of (48 + n) else char_of (87 + n))"

definition jsonEscape :: "char \<Rightarrow> string" where
  "jsonEscape c =
     (if code c = 34 then [CHR 0x5C, CHR 0x22]
      else if code c = 92 then [CHR 0x5C, CHR 0x5C]
      else if code c = 8 then [CHR 0x5C, CHR ''b'']
      else if code c = 12 then [CHR 0x5C, CHR ''f'']
      else if code c = 10 then [CHR 0x5C, CHR ''n'']
      else if code c = 13 then [CHR 0x5C, CHR ''r'']
      else if code c = 9 then [CHR 0x5C, CHR ''t'']
      else if code c < 32
        then [CHR 0x5C, CHR ''u'', CHR ''0'', CHR ''0'', hexLower (code c div 16), hexLower (code c mod 16)]
      else [c])"

definition jsonQuote :: "string \<Rightarrow> string" where
  "jsonQuote s = [CHR 0x22] @ concat (map jsonEscape s) @ [CHR 0x22]"

definition JSON_stringify :: "UtmParameters \<Rightarrow> string" where
  "JSON_stringify obj =
     ''{'' @
     join '','' (concat (map (\<lambda>(key, value).
                               case value of
                                 None \<Rightarrow> []
                               | Some v \<Rightarrow> [jsonQuote key @ '':'' @ jsonQuote v])
                            obj)) @
     ''}''"

text \<open>
  The session storage of the host: it may be missing (\<open>present\<close> is false), or refuse
  every call with an exception (\<open>blocked\<close>); otherwise it is a map from slot names to
  strings. A medium that accepts the probe of \<open>isStorageAvailable\<close> accepts every write.
\<close>

record SessionStorage =
  present :: bool
  blocked :: bool
  items :: "string \<Rightarrow> string option"

section \<open>Session store (core/storage.ts)\<close>

definition DEFAULT_STORAGE_KEY :: string where
  "DEFAULT_STORAGE_KEY = ''utm_parameters''"

record StorageOptions =
  storageKey :: "string option"
  storage_keyFormat :: "KeyFormat option"

text \<open>The probe writes the slot \<open>__utm_test__\<close> and removes it again.\<close>

definition isStorageAvailable :: "SessionStorage \<Rightarrow> bool \<times> SessionStorage" where
  "isStorageAvailable st =
     (if \<not> present st then (False, st)
      else if blocked st then (False, st)
      else
        let testKey = ''__utm_test__'';
            st1 = st\<lparr>items := (items st)(testKey \<mapsto> ''test'')\<rparr>;
            st2 = st1\<lparr>items := (items st1)(testKey := None)\<rparr>
        in (True, st2))"

definition isValidStoredData :: "json \<Rightarrow> KeyFormat option \<Rightarrow> bool" where
  "isValidStoredData data keyFormat =
     (case data of
        JObj entries \<Rightarrow>
          if length entries = 0 then True
          else list_all (\<lambda>(key, value).
                 if (case value of JStr _ \<Rightarrow> False | _ \<Rightarrow> True) then False
                 else if keyFormat = Some snake_case then isSnakeCaseUtmKey key
                 else if keyFormat = Some camelCase then isCamelCaseUtmKey key
                 else isUtmKey key) entries
      | _ \<Rightarrow> False)"

text \<open>A validated value, read as the parameter object that it is.\<close>

definition asUtmParameters :: "json \<Rightarrow> UtmParameters" where
  "asUtmParameters data =
     (case data of
        JObj entries \<Rightarrow> map (\<lambda>(key, value). (key, case value of JStr v \<Rightarrow> Some v | _ \<Rightarrow> None)) entries
      | _ \<Rightarrow> [])"

definition storeUtmParameters ::
  "SessionStorage \<Rightarrow> UtmParameters \<Rightarrow> StorageOptions \<Rightarrow> SessionStorage" where
  "storeUtmParameters st params options =
     (let key = orDefault (storageKey options) DEFAULT_STORAGE_KEY;
          keyFormat = orDefault (storage_keyFormat options) snake_case;
          (available, st1) = isStorageAvailable st
      in if \<not> available then st1
         else if length params = 0 then st1
         else
           let paramsToStore = convertParams params keyFormat;
               serialized = JSON_stringify paramsToStore
           in st1\<lparr>items := (items st1)(key \<mapsto> serialized)\<rparr>)"

definition getStoredUtmParameters ::
  "(string \<Rightarrow> json option) \<Rightarrow> SessionStorage \<Rightarrow> StorageOptions
     \<Rightarrow> UtmParameters option \<times> SessionStorage" where
  "getStoredUtmParameters JSON_parse st options =
     (let key = orDefault (storageKey options) DEFAULT_STORAGE_KEY;
          (available, st1) = isStorageAvailable st
      in if \<not> available then (None, st1)
         else case items st1 key of
                None \<Rightarrow> (None, st1)
              | Some stored \<Rightarrow>
                  (case JSON_parse stored of
                     None \<Rightarrow> (None, st1)
                   | Some parsed \<Rightarrow>
                       if \<not> isValidStoredData parsed None then (None, st1)
                       else case storage_keyFormat options of
                              Some keyFormat \<Rightarrow> (Some (convertParams (asUtmParameters parsed) keyFormat), st1)
                            | None \<Rightarrow> (Some (asUtmParameters parsed), st1)))"

section \<open>Parsers for the examples\<close>

text \<open>
  The general theorems hold for every \<open>parse\<close> and every \<open>JSON_parse\<close>. The examples need
  the platform's answer at a concrete string, and take it from the two parsers below.

  \<open>parse_http_url\<close> reads an absolute \<open>http\<close> or \<open>https\<close> URL
  \<open>scheme://[user[:password]@]host[:port][/path][?query][#fragment]\<close>. It agrees with the
  URL constructor on URLs in normal form (lower-case host of letters, digits, dots and
  hyphens, no default port, no dot segments, no character that the constructor would
  escape); an empty path reads as \<open>/\<close>.
\<close>

definition hostChar :: "char \<Rightarrow> bool" where
  "hostChar c = (isLowerAZ c \<or> isDigit c \<or> c \<in> set ''.-:'')"

definition parse_http_url :: "string \<Rightarrow> URL option" where
  "parse_http_url s =
     (let sch = (if startsWith s ''https://'' then ''https''
                 else if startsWith s ''http://'' then ''http'' else []);
          rest = drop (length sch + 3) s;
          authority = takeWhile (\<lambda>c. c \<notin> set ''/?#'') rest;
          r1 = dropWhile (\<lambda>c. c \<notin> set ''/?#'') rest;
          p = takeWhile (\<lambda>c. c \<notin> set ''?#'') r1;
          r2 = dropWhile (\<lambda>c. c \<notin> set ''?#'') r1;
          q = (if startsWith r2 ''?''
               then Some (takeWhile (\<lambda>c. c \<noteq> CHR ''#'') (drop 1 r2)) else None);
          r3 = dropWhile (\<lambda>c. c \<noteq> CHR ''#'') r2;
          f = (if startsWith r3 ''#'' then Some (drop 1 r3) else None);
          hasUser = str_includes authority (CHR ''@'');
          userinfo = (if hasUser
                      then rev (drop 1 (dropWhile (\<lambda>c. c \<noteq> CHR ''@'') (rev authority)))
                      else []);
          hp = (if hasUser then rev (takeWhile (\<lambda>c. c \<noteq> CHR ''@'') (rev authority))
                else authority)
      in if sch = [] \<or> hp = [] \<or> \<not> list_all hostChar hp then None
         else Some \<lparr>scheme = sch,
                     username = takeWhile (\<lambda>c. c \<noteq> CHR '':'') userinfo,
                     password = drop 1 (dropWhile (\<lambda>c. c \<noteq> CHR '':'') userinfo),
                     hostport = Some hp,
                     path = (if p = [] then ''/'' else p),
                     query = q,
                     fragment = f\<rparr>)"

text \<open>
  \<open>parse_json\<close> reads the JSON grammar: objects, arrays, strings with their escapes,
  numbers and the three literals, with white space between the tokens. The first
  argument of the recursive functions bounds the depth of the recursion by the length of
  the input.
\<close>

definition isWs :: "char \<Rightarrow> bool" where
  "isWs c = (code c \<in> {32, 9, 10, 13})"

definition skipWs :: "string \<Rightarrow> string" where
  "skipWs s = dropWhile isWs s"

definition unescape :: "char \<Rightarrow> char option" where
  "unescape e =
     (if e = CHR 0x22 \<or> e = CHR 0x5C \<or> e = CHR ''/'' then Some e
      else if e = CHR ''b'' then Some (CHR 0x08)
      else if e = CHR ''f'' then Some (CHR 0x0C)
      else if e = CHR ''n'' then Some (CHR 0x0A)
      else if e = CHR ''r'' then Some (CHR 0x0D)
      else if e = CHR ''t'' then Some (CHR 0x09)
      else None)"

text \<open>The UTF-8 bytes of a code point of the basic plane.\<close>

definition utf8 :: "nat \<Rightarrow> string" where
  "utf8 n =
     (if n < 128 then [char_of n]
      else if n < 2048 then [char_of (192 + n div 64), char_of (128 + n mod 64)]
      else [char_of (224 + n div 4096), char_of (128 + (n div 64) mod 64), char_of (128 + n mod 64)])"

text \<open>The rest of a string token, after its opening quote.\<close>

fun json_string :: "string \<Rightarrow> (string \<times> string) option" where
  "json_string [] = None"
| "json_string (c # s) =
     (if c = CHR 0x22 then Some ([], s)
      else if c = CHR 0x5C then
        (case s of
           e # h1 # h2 # h3 # h4 # r \<Rightarrow>
             if e = CHR ''u'' then
               (if isHexDigit h1 \<and> isHexDigit h2 \<and> isHexDigit h3 \<and> isHexDigit h4
                then map_option
                       (\<lambda>(t, r'). (utf8 (4096 * hexValue h1 + 256 * hexValue h2 +
                                           16 * hexValue h3 + hexValue h4) @ t, r'))
                       (json_string r)
                else None)
             else (case unescape e of
                     None \<Rightarrow> None
                   | Some ch \<Rightarrow>
                       map_option (\<lambda>(t, r'). (ch # t, r')) (json_string (h1 # h2 # h3 # h4 # r)))
         | e # r \<Rightarrow>
             (case unescape e of
                None \<Rightarrow> None
              | Some ch \<Rightarrow> map_option (\<lambda>(t, r'). (ch # t, r')) (json_string r))
         | [] \<Rightarrow> None)
      else if code c < 32 then None
      else map_option (\<lambda>(t, r'). (c # t, r')) (json_string s))"

definition digits1 :: "string \<Rightarrow> (string \<times> string) option" where
  "digits1 s =
     (if takeWhile isDigit s = [] then None
      else Some (takeWhile isDigit s, dropWhile isDigit s))"

definition json_number :: "string \<Rightarrow> (string \<times> string) option" where
  "json_number s =
     (let sign = (if startsWith s ''-'' then ''-'' else []);
          s1 = drop (length sign) s
      in case digits1 s1 of
           None \<Rightarrow> None
         | Some (ds, s2) \<Rightarrow>
             let ip = (if startsWith ds ''0'' then ''0'' else ds);
                 s3 = drop (length ip) s1
             in case (if startsWith s3 ''.''
                      then map_option (\<lambda>(fs, r). (''.'' @ fs, r)) (digits1 (drop 1 s3))
                      else Some ([], s3)) of
                  None \<Rightarrow> None
                | Some (fp, s4) \<Rightarrow>
                    if startsWith s4 ''e'' \<or> startsWith s4 ''E'' then
                      (let es = (if startsWith (drop 1 s4) ''+'' \<or> startsWith (drop 1 s4) ''-''
                                 then take 2 s4 else take 1 s4)
                       in map_option (\<lambda>(xs, r). (sign @ ip @ fp @ es @ xs, r))
                            (digits1 (drop (length es) s4)))
                    else Some (sign @ ip @ fp, s4))"

fun json_value :: "nat \<Rightarrow> string \<Rightarrow> (json \<times> string) option"
  and json_elements :: "nat \<Rightarrow> json list \<Rightarrow> string \<Rightarrow> (json list \<times> string) option"
  and json_members ::
    "nat \<Rightarrow> (string \<times> json) list \<Rightarrow> string \<Rightarrow> ((string \<times> json) list \<times> string) option"
where
  "json_value 0 s = None"
| "json_value (Suc n) s =
     (if startsWith s ''{'' then
        (if startsWith (skipWs (drop 1 s)) ''}'' then Some (JObj [], drop 1 (skipWs (drop 1 s)))
         else map_option (\<lambda>(es, r). (JObj es, r)) (json_members n [] (skipWs (drop 1 s))))
      else if startsWith s ''['' then
        (if startsWith (skipWs (drop 1 s)) '']'' then Some (JArr [], drop 1 (skipWs (drop 1 s)))
         else map_option (\<lambda>(vs, r). (JArr vs, r)) (json_elements n [] (skipWs (drop 1 s))))
      else if startsWith s [CHR 0x22] then
        map_option (\<lambda>(t, r). (JStr t, r)) (json_string (drop 1 s))
      else if startsWith s ''true'' then Some (JBool True, drop 4 s)
      else if startsWith s ''false'' then Some (JBool False, drop 5 s)
      else if startsWith s ''null'' then Some (JNull, drop 4 s)
      else map_option (\<lambda>(t, r). (JNum t, r)) (json_number s))"
| "json_elements 0 acc s = None"
| "json_elements (Suc n) acc s =
     (case json_value n s of
        None \<Rightarrow> None
      | Some (v, r) \<Rightarrow>
          if startsWith (skipWs r) '','' then json_elements n (acc @ [v]) (skipWs (drop 1 (skipWs r)))
          else if startsWith (skipWs r) '']'' then Some (acc @ [v], drop 1 (skipWs r))
          else None)"
| "json_members 0 acc s = None"
| "json_members (Suc n) acc s =
     (if \<not> startsWith s [CHR 0x22] then None
      else case json_string (drop 1 s) of
             None \<Rightarrow> None
           | Some (k, r) \<Rightarrow>
               if \<not> startsWith (skipWs r) '':'' then None
               else case json_value n (skipWs (drop 1 (skipWs r))) of
                      None \<Rightarrow> None
                    | Some (v, r') \<Rightarrow>
                        if startsWith (skipWs r') '','' then
                          json_members n (obj_set acc k v) (skipWs (drop 1 (skipWs r')))
                        else if startsWith (skipWs r') ''}'' then
                          Some (obj_set acc k v, drop 1 (skipWs r'))
                        else None)"

definition parse_json :: "string \<Rightarrow> json option" where
  "parse_json s =
     (case json_value (Suc (length s)) (skipWs s) of
        None \<Rightarrow> None
      | Some (v, r) \<Rightarrow> if skipWs r = [] then Some v else None)"

section \<open>Key shapes\<close>

text \<open>
  The suffix of an underscore key that the conversion restores: ASCII, without an
  upper-case letter, and empty or starting with a lower-case letter.
\<close>

definition plainSnakeSuffix :: "string \<Rightarrow> bool" where
  "plainSnakeSuffix r =
     (list_all isAscii r \<and> list_all (\<lambda>c. \<not> isUpperAZ c) r \<and>
      (case r of [] \<Rightarrow> True | c # _ \<Rightarrow> isLowerAZ c))"

text \<open>
  The part of a compact key after its first capital that the conversion restores: no
  underscore stands directly before a lower-case letter.
\<close>

fun noUnderscoreLower :: "string \<Rightarrow> bool" where
  "noUnderscoreLower [] = True"
| "noUnderscoreLower [c] = True"
| "noUnderscoreLower (c # d # s) =
     (\<not> (c = CHR ''_'' \<and> isLowerAZ d) \<and> noUnderscoreLower (d # s))"

section \<open>Corrupt stored values\<close>

text \<open>
  A parsed value that is not a plain object, or that has an entry whose key is not a UTM
  key or whose value is not a string.
\<close>

definition failsStructuralValidation :: "json \<Rightarrow> bool" where
  "failsStructuralValidation v =
     (case v of
        JObj entries \<Rightarrow>
          list_ex (\<lambda>(key, value). \<not> isUtmKey key \<or> (case value of JStr _ \<Rightarrow> False | _ \<Rightarrow> True)) entries
      | _ \<Rightarrow> True)"

section \<open>Written pairs\<close>

text \<open>
  One pair as \<open>URLSearchParams.toString\<close> writes it, and one pair as \<open>buildQueryString\<close>
  writes it.
\<close>

definition formPair :: "string \<times> string \<Rightarrow> string" where
  "formPair p = formEncode (fst p) @ ''='' @ formEncode (snd p)"

definition queryPair :: "string \<times> string \<Rightarrow> string" where
  "queryPair p =
     (if snd p = [] then encodeURIComponent (fst p)
      else encodeURIComponent (fst p) @ ''='' @ encodeURIComponent (snd p))"

section \<open>Notions used in the statements\<close>

text \<open>
  A parameter object as \<open>convertParams\<close> returns it: distinct keys, no undefined value.
\<close>

definition wellFormed :: "UtmParameters \<Rightarrow> bool" where
  "wellFormed p = (distinct (map fst p) \<and> list_all (\<lambda>(k, v). v \<noteq> None) p)"

text \<open>A character that the \<open>hash\<close> setter keeps as it is.\<close>

definition fragmentPlain :: "char \<Rightarrow> bool" where
  "fragmentPlain c = (\<not> fragmentEscaped c \<and> code c \<notin> {9, 10, 13} \<and> c \<noteq> CHR ''#'')"

text \<open>
  A key is held by the fragment when the fragment reads as parameters, that is, contains
  \<open>=\<close> (the test of \<open>appendToQuery\<close>, \<open>removeUtmParameters\<close> and \<open>extractUtmParameters\<close>),
  and the key is the name of one of its pairs. A key is held by the query when it is the
  name of one of the query's pairs.
\<close>

definition fragmentHasKey :: "URL \<Rightarrow> string \<Rightarrow> bool" where
  "fragmentHasKey u k =
     (str_includes (hash u) (CHR ''='') \<and> usp_has k (new_URLSearchParams (drop 1 (hash u))))"

definition queryHasKey :: "URL \<Rightarrow> string \<Rightarrow> bool" where
  "queryHasKey u k = usp_has k (searchParams u)"

text \<open>
  A written component shows \<open>k\<close> as a bare key: one of its \<open>&\<close>-separated segments is the
  encoded key alone, and no segment that reads as the key \<open>k\<close> contains \<open>=\<close>.
\<close>

definition showsBareKey :: "string \<Rightarrow> string \<Rightarrow> bool" where
  "showsBareKey component k =
     (encodeURIComponent k \<in> set (split_on (CHR ''&'') component) \<and>
      list_all (\<lambda>seg. fst (parsePair seg) = k \<longrightarrow> \<not> str_includes seg (CHR ''=''))
               (split_on (CHR ''&'') component))"

text \<open>
  The query and the fragment of a URL string, each with its delimiter: the fragment starts
  at the first \<open>#\<close>, the query at the first \<open>?\<close> before it.
\<close>

definition fragmentOf :: "string \<Rightarrow> string" where
  "fragmentOf s = dropWhile (\<lambda>c. c \<noteq> CHR ''#'') s"

definition queryOf :: "string \<Rightarrow> string" where
  "queryOf s = dropWhile (\<lambda>c. c \<noteq> CHR ''?'') (takeWhile (\<lambda>c. c \<noteq> CHR ''#'') s)"

text \<open>
  A key is held by the fragment of a URL string when that fragment contains \<open>=\<close> and the
  key is the name of one of its pairs, and by the query of a URL string when it is the name
  of one of the query's pairs.
\<close>

definition heldInFragment :: "string \<Rightarrow> string \<Rightarrow> bool" where
  "heldInFragment s k =
     (str_includes (fragmentOf s) (CHR ''='') \<and>
      usp_has k (new_URLSearchParams (drop 1 (fragmentOf s))))"

definition heldInQuery :: "string \<Rightarrow> string \<Rightarrow> bool" where
  "heldInQuery s k = usp_has k (urlencoded_parse (drop 1 (queryOf s)))"

text \<open>
  The URL standard keeps the delimiters out of the components of a URL record: the parser
  ends the scheme, the credentials, the host and the path at \<open>?\<close> and \<open>#\<close> and the query at
  \<open>#\<close>, and the setters escape them. For such a record the query and the fragment of its
  serialization are the ones the record holds.
\<close>

definition delimitersEscaped :: "URL \<Rightarrow> bool" where
  "delimitersEscaped u =
     (list_all (\<lambda>c. c \<noteq> CHR ''?'' \<and> c \<noteq> CHR ''#'')
               (scheme u @ username u @ password u @ host u @ path u) \<and>
      list_all (\<lambda>c. c \<noteq> CHR ''#'') (case query u of None \<Rightarrow> [] | Some q \<Rightarrow> q))"

text \<open>The serialization of a URL record up to its path.\<close>

definition beforeQuery :: "URL \<Rightarrow> string" where
  "beforeQuery u =
     scheme u @ '':'' @
     (case hostport u of
        Some h \<Rightarrow>
          ''//'' @
          (if username u \<noteq> [] \<or> password u \<noteq> []
           then username u @ (if password u \<noteq> [] then '':'' @ password u else []) @ ''@''
           else []) @ h
      | None \<Rightarrow> (if startsWith (path u) ''//'' then ''/.'' else [])) @
     path u"

text \<open>
  A parameter list without the pairs named by a key of the parameter object, and a query
  and a fragment as they are written into a URL: nothing when empty, else after the
  delimiter.
\<close>

definition withoutKeys :: "UtmParameters \<Rightarrow> URLSearchParams \<Rightarrow> URLSearchParams" where
  "withoutKeys params l = filter (\<lambda>(k, v). k \<notin> fst ` set params) l"

definition queryText :: "string \<Rightarrow> string" where
  "queryText q = (if q = [] then [] else ''?'' @ q)"

definition fragmentText :: "string \<Rightarrow> string" where
  "fragmentText f = (if f = [] then [] else ''#'' @ f)"

section \<open>Reading a result back\<close>

text \<open>
  The URL object that the result of \<open>appendToQuery\<close> spells out: no credentials, the
  written query, and the fragment of the URL object after the fragment block. For a URL
  with a host its serialization is the result (lemma \<open>appendToQuery_toString\<close>).
\<close>

definition queryResult :: "URL \<Rightarrow> UtmParameters \<Rightarrow> bool \<Rightarrow> URL" where
  "queryResult u params pe =
     (let urlObj = removeFromFragment u params;
          qs = buildQueryString (writeParams params pe (searchParams urlObj))
      in urlObj\<lparr>username := [], password := [],
                query := (if qs = [] then None else Some qs),
                fragment := (if hash urlObj = [] then None else fragment urlObj)\<rparr>)"

text \<open>
  Two URL objects agree on everything that \<open>appendToQuery\<close> reads.
\<close>

definition agreeForQuery :: "URL \<Rightarrow> URL \<Rightarrow> bool" where
  "agreeForQuery a b =
     (protocol a = protocol b \<and> host a = host b \<and> pathname a = pathname b \<and>
      searchParams a = searchParams b \<and> hash a = hash b)"

section \<open>Parameter objects that survive storage\<close>

text \<open>
  The JSON value of a parameter object: its entries with a defined value, each value a
  string. It is what \<open>JSON.parse\<close> returns on the text that \<open>JSON.stringify\<close> wrote.
\<close>

definition jsonOf :: "UtmParameters \<Rightarrow> json" where
  "jsonOf obj =
     JObj (concat (map (\<lambda>(key, value).
                          case value of None \<Rightarrow> [] | Some v \<Rightarrow> [(key, JStr v)]) obj))"

text \<open>Every key of the parameter object is ASCII.\<close>

definition asciiKeys :: "UtmParameters \<Rightarrow> bool" where
  "asciiKeys p = list_all (\<lambda>(k, v). list_all isAscii k) p"

text \<open>The entries with a defined value, which are the ones \<open>convertParams\<close> keeps.\<close>

fun definedEntries :: "UtmParameters \<Rightarrow> UtmParameters" where
  "definedEntries [] = []"
| "definedEntries ((k, None) # p) = definedEntries p"
| "definedEntries ((k, Some v) # p) = (k, Some v) # definedEntries p"

text \<open>
  The keys of the entries with a defined value stay distinct in the underscore form, and
  for each of them the compact form of the underscore form is the compact form of the key.
\<close>

definition keysSurviveStorage :: "UtmParameters \<Rightarrow> bool" where
  "keysSurviveStorage p =
     (distinct (map toSnakeCase (map fst (definedEntries p))) \<and>
      list_all (\<lambda>k. toCamelCase (toSnakeCase k) = toCamelCase k) (map fst (definedEntries p)))"

text \<open>The loop of \<open>convertParams\<close> with any converter and any starting object.\<close>

definition convertWith :: "(string \<Rightarrow> string) \<Rightarrow> UtmParameters \<Rightarrow> UtmParameters \<Rightarrow> UtmParameters" where
  "convertWith f p acc =
     fold (\<lambda>(key, value) result.
             case value of None \<Rightarrow> result | Some v \<Rightarrow> obj_set result (f key) (Some v)) p acc"

section \<open>Characters\<close>

lemma code_inj: "code c = code d \<Longrightarrow> c = d"
  by (simp add: code_def)

lemma code_underscore: "code (CHR ''_'') = 95"
  by (simp add: code_def)

lemma code_lt: "code c < 256"
  by (simp add: code_def)

lemma code_char_of: "n < 256 \<Longrightarrow> code (char_of n) = n"
  by (simp add: code_def of_char_of)

lemma code_toLower: "isUpperAZ c \<Longrightarrow> code (toLowerChar c) = code c + 32"
  by (simp add: toLowerChar_def isUpperAZ_def code_char_of)

lemma code_toUpper: "isLowerAZ c \<Longrightarrow> code (toUpperChar c) = code c - 32"
proof -
  assume l: "isLowerAZ c"
  have "code c - 32 < 256" using code_lt [of c] by simp
  then show ?thesis using l by (simp add: toUpperChar_def code_char_of)
qed

lemma isLower_toLower: "isUpperAZ c \<Longrightarrow> isLowerAZ (toLowerChar c)"
  by (simp add: isLowerAZ_def code_toLower) (simp add: isUpperAZ_def)

lemma isUpper_toUpper: "isLowerAZ c \<Longrightarrow> isUpperAZ (toUpperChar c)"
  by (simp add: isUpperAZ_def code_toUpper) (auto simp: isLowerAZ_def)

lemma toUpper_toLower: "isUpperAZ c \<Longrightarrow> toUpperChar (toLowerChar c) = c"
  by (rule code_inj) (simp add: code_toUpper isLower_toLower code_toLower)

lemma toLower_toUpper: "isLowerAZ c \<Longrightarrow> toLowerChar (toUpperChar c) = c"
  by (rule code_inj) (simp add: code_toLower isUpper_toUpper code_toUpper, simp add: isLowerAZ_def)

lemma toLower_id: "\<not> isUpperAZ c \<Longrightarrow> toLowerChar c = c"
  by (simp add: toLowerChar_def)

lemma upper_not_underscore: "isUpperAZ c \<Longrightarrow> c \<noteq> CHR ''_''"
  by (auto simp: isUpperAZ_def code_underscore)

lemma lower_not_underscore: "isLowerAZ c \<Longrightarrow> c \<noteq> CHR ''_''"
  by (auto simp: isLowerAZ_def code_underscore)

lemma lower_not_upper: "isLowerAZ c \<Longrightarrow> \<not> isUpperAZ c"
  by (auto simp: isLowerAZ_def isUpperAZ_def)

lemma toLower_underscore: "toLowerChar (CHR ''_'') = CHR ''_''"
  by (simp add: toLowerChar_def isUpperAZ_def code_underscore)

lemma underscore_no_letter: "\<not> isLowerAZ (CHR ''_'')" "\<not> isUpperAZ (CHR ''_'')"
  by (simp_all add: isLowerAZ_def isUpperAZ_def code_underscore)

lemma CAMEL_TO_SNAKE_generic:
  "list_all (\<lambda>(k, v). v = ''utm'' @ toLowerCase (underscoreUpper (drop 3 k))) CAMEL_TO_SNAKE"
  by code_simp

lemma SNAKE_TO_CAMEL_generic:
  "list_all (\<lambda>(k, v). v = ''utm'' @ capitalize (upperAfterUnderscore (drop 4 k))) SNAKE_TO_CAMEL"
  by code_simp

lemma toSnakeCase_generic:
  "startsWith key ''utm'' \<Longrightarrow> length key > 3 \<Longrightarrow>
   toSnakeCase key = ''utm'' @ toLowerCase (underscoreUpper (drop 3 key))"
proof -
  assume a: "startsWith key ''utm''" "length key > 3"
  show ?thesis
  proof (cases "map_of CAMEL_TO_SNAKE key")
    case None
    then show ?thesis using a by (simp add: toSnakeCase_def)
  next
    case (Some v)
    then have "(key, v) \<in> set CAMEL_TO_SNAKE" by (rule map_of_SomeD)
    then show ?thesis using Some CAMEL_TO_SNAKE_generic
      by (auto simp: toSnakeCase_def list_all_iff)
  qed
qed

lemma toCamelCase_generic:
  "startsWith key ''utm_'' \<Longrightarrow> length key > 4 \<Longrightarrow>
   toCamelCase key = ''utm'' @ capitalize (upperAfterUnderscore (drop 4 key))"
proof -
  assume a: "startsWith key ''utm_''" "length key > 4"
  show ?thesis
  proof (cases "map_of SNAKE_TO_CAMEL key")
    case None
    then show ?thesis using a by (simp add: toCamelCase_def)
  next
    case (Some v)
    then have "(key, v) \<in> set SNAKE_TO_CAMEL" by (rule map_of_SomeD)
    then show ?thesis using Some SNAKE_TO_CAMEL_generic
      by (auto simp: toCamelCase_def list_all_iff)
  qed
qed

lemma lower_under_upper_inverse:
  "list_all (\<lambda>c. \<not> isUpperAZ c) s \<Longrightarrow>
   toLowerCase (underscoreUpper (upperAfterUnderscore s)) = s"
proof (induction s rule: upperAfterUnderscore.induct)
  case 1
  then show ?case by (simp add: toLowerCase_def)
next
  case (2 c)
  then show ?case by (simp add: toLowerCase_def toLower_id)
next
  case (3 c d s)
  then show ?case
    by (auto simp: toLowerCase_def toLower_id isUpper_toUpper toLower_toUpper upper_not_underscore)
qed

lemma upper_lower_inverse:
  "noUnderscoreLower s \<Longrightarrow>
   upperAfterUnderscore (toLowerCase (underscoreUpper s)) = s"
proof (induction s rule: noUnderscoreLower.induct)
  case 1
  then show ?case by (simp add: toLowerCase_def)
next
  case (2 c)
  then show ?case
    by (auto simp: toLowerCase_def toLower_id isLower_toLower toUpper_toLower toLower_underscore)
next
  case (3 c d s)
  then show ?case
    by (auto simp: toLowerCase_def toLower_id isLower_toLower toUpper_toLower upper_not_underscore
        lower_not_upper toLower_underscore underscore_no_letter)
qed

section \<open>C1: round trip of the key conversion\<close>

lemma snake_round_trip:
  assumes "isSnakeCaseUtmKey k" and "plainSnakeSuffix (drop 4 k)"
  shows "toSnakeCase (toCamelCase k) = k"
proof -
  from assms(1) have "take 4 k = ''utm_''"
    by (simp add: isSnakeCaseUtmKey_def startsWith_def eval_nat_numeral)
  then have k: "k = ''utm_'' @ drop 4 k"
    by (metis append_take_drop_id)
  show ?thesis
  proof (cases "drop 4 k")
    case Nil
    with k have "k = ''utm_''" by simp
    then show ?thesis by (simp add: toCamelCase_def toSnakeCase_def SNAKE_TO_CAMEL_def CAMEL_TO_SNAKE_def startsWith_def toLowerCase_def toLower_underscore underscore_no_letter)
  next
    case (Cons c r)
    with k have k': "k = ''utm_'' @ c # r" by simp
    from assms(2) Cons have c: "isLowerAZ c" and r: "list_all (\<lambda>c. \<not> isUpperAZ c) r"
      by (simp_all add: plainSnakeSuffix_def)
    have 1: "toCamelCase (''utm_'' @ c # r) = ''utm'' @ capitalize (upperAfterUnderscore (c # r))"
      using toCamelCase_generic [of "''utm_'' @ c # r"] by (simp add: startsWith_def)
    have 2: "upperAfterUnderscore (c # r) = c # upperAfterUnderscore r"
      using c by (cases r) (auto simp: underscore_no_letter)
    have 3: "toSnakeCase (''utm'' @ toUpperChar c # upperAfterUnderscore r) =
         ''utm'' @ toLowerCase (underscoreUpper (toUpperChar c # upperAfterUnderscore r))"
      using toSnakeCase_generic [of "''utm'' @ toUpperChar c # upperAfterUnderscore r"]
      by (simp add: startsWith_def)
    have "toSnakeCase (toCamelCase (''utm_'' @ c # r)) = ''utm_'' @ c # r"
      using c lower_under_upper_inverse [OF r]
      by (simp only: 1 2 capitalize.simps 3)
         (simp add: isUpper_toUpper toLower_toUpper toLowerCase_def toLower_underscore)
    then show ?thesis by (simp only: k' [symmetric])
  qed
qed

lemma camel_round_trip:
  assumes "isCamelCaseUtmKey k" and "noUnderscoreLower (drop 4 k)"
  shows "toCamelCase (toSnakeCase k) = k"
proof -
  from assms(1) have sw: "startsWith k ''utm''" and len: "length k > 3" and up: "isUpperAZ (k ! 3)"
    by (auto simp: isCamelCaseUtmKey_def split: if_splits)
  from sw have "take 3 k = ''utm''"
    by (simp add: startsWith_def eval_nat_numeral)
  then have "k = ''utm'' @ drop 3 k"
    by (metis append_take_drop_id)
  moreover from len obtain c r where cr: "drop 3 k = c # r"
    by (cases "drop 3 k") auto
  ultimately have k': "k = ''utm'' @ c # r" by simp
  with up have c: "isUpperAZ c" by simp
  from k' assms(2) have r: "noUnderscoreLower r" by simp
  have 1: "toSnakeCase (''utm'' @ c # r) = ''utm_'' @ toLowerChar c # toLowerCase (underscoreUpper r)"
    using toSnakeCase_generic [of "''utm'' @ c # r"] c
    by (simp add: toLowerCase_def toLower_underscore startsWith_def)
  have 2: "toCamelCase (''utm_'' @ toLowerChar c # toLowerCase (underscoreUpper r)) =
      ''utm'' @ capitalize (upperAfterUnderscore (toLowerChar c # toLowerCase (underscoreUpper r)))"
    using toCamelCase_generic [of "''utm_'' @ toLowerChar c # toLowerCase (underscoreUpper r)"]
    by (simp add: startsWith_def)
  have 3: "upperAfterUnderscore (toLowerChar c # toLowerCase (underscoreUpper r)) =
      toLowerChar c # upperAfterUnderscore (toLowerCase (underscoreUpper r))"
    using isLower_toLower [OF c] lower_not_underscore
    by (cases "toLowerCase (underscoreUpper r)") auto
  have "toCamelCase (toSnakeCase (''utm'' @ c # r)) = ''utm'' @ c # r"
    using c upper_lower_inverse [OF r]
    by (simp only: 1 2 3) (simp add: toUpper_toLower)
  then show ?thesis by (simp only: k' [symmetric])
qed

text \<open>
  C1, as stated: every key starting with \<open>utm_\<close> survives the conversion to the compact
  form and back, and every key starting with \<open>utm\<close> and a capital survives the conversion to
  the underscore form and back. Both fail: \<open>utm_1\<close> comes back as \<open>utm1\<close>, and \<open>utmA_b\<close>
  comes back as \<open>utmAB\<close>.
\<close>

theorem key_round_trip_counterexample:
  "isSnakeCaseUtmKey ''utm_1'' \<and> toSnakeCase (toCamelCase ''utm_1'') = ''utm1'' \<and>
   isCamelCaseUtmKey ''utmA_b'' \<and> toCamelCase (toSnakeCase ''utmA_b'') = ''utmAB''"
  by code_simp

text \<open>
  C1, amended: an underscore key \<open>utm_\<close> + suffix is restored by
  \<open>toSnakeCase (toCamelCase k)\<close> when the suffix is ASCII, has no upper-case letter and is
  empty or starts with a lower-case letter; a compact key is restored by
  \<open>toCamelCase (toSnakeCase k)\<close> when it is ASCII and, after its first capital, no underscore
  stands directly before a lower-case letter. Custom suffixes such as \<open>utm_team_id\<close> and
  \<open>utmTeamId\<close> are covered.
\<close>

theorem key_round_trip:
  "(isSnakeCaseUtmKey k \<and> plainSnakeSuffix (drop 4 k) \<longrightarrow> toSnakeCase (toCamelCase k) = k) \<and>
   (isCamelCaseUtmKey k' \<and> list_all isAscii k' \<and> noUnderscoreLower (drop 4 k')
      \<longrightarrow> toCamelCase (toSnakeCase k') = k')"
  using snake_round_trip [of k] camel_round_trip [of k'] by blast

theorem key_round_trip_witness:
  "isSnakeCaseUtmKey ''utm_team_id'' \<and> plainSnakeSuffix (drop 4 ''utm_team_id'') \<and>
   toSnakeCase (toCamelCase ''utm_team_id'') = ''utm_team_id'' \<and>
   isCamelCaseUtmKey ''utmTeamId'' \<and> list_all isAscii ''utmTeamId'' \<and>
   noUnderscoreLower (drop 4 ''utmTeamId'') \<and>
   toCamelCase (toSnakeCase ''utmTeamId'') = ''utmTeamId''"
proof -
  have h1: "isSnakeCaseUtmKey ''utm_team_id'' \<and> plainSnakeSuffix (drop 4 ''utm_team_id'')"
    by code_simp
  have h2: "isCamelCaseUtmKey ''utmTeamId'' \<and> list_all isAscii ''utmTeamId'' \<and>
            noUnderscoreLower (drop 4 ''utmTeamId'')"
    by code_simp
  show ?thesis
    using h1 h2 key_round_trip [of "''utm_team_id''" "''utmTeamId''"] by blast
qed

section \<open>C10: a parameter object whose values are all undefined\<close>

lemma convertParams_all_undefined_aux:
  "list_all (\<lambda>(k, v). v = None) p \<Longrightarrow>
   fold (\<lambda>(key, value) result. case value of None \<Rightarrow> result | Some v \<Rightarrow> obj_set result (f key) (Some v)) p acc = acc"
  by (induction p arbitrary: acc) auto

lemma convertParams_all_undefined:
  "list_all (\<lambda>(k, v). v = None) p \<Longrightarrow> convertParams p fmt = []"
  by (simp add: convertParams_def convertParams_all_undefined_aux)

lemma JSON_stringify_empty: "JSON_stringify [] = ''{}''"
  by (simp add: JSON_stringify_def)

text \<open>
  C10: with a working store, a parameter object that has at least one key and only
  undefined values makes \<open>storeUtmParameters\<close> write the string \<open>{}\<close> to the slot, whatever the
  slot held before: the object counts as non-empty by its keys, and the conversion then
  drops every entry.
\<close>

theorem store_all_undefined:
  assumes "present st" and "\<not> blocked st" and "length p > 0"
    and "list_all (\<lambda>(k, v). v = None) p"
  shows "items (storeUtmParameters st p opts) (orDefault (storageKey opts) DEFAULT_STORAGE_KEY)
           = Some ''{}''"
  using assms
  by (simp add: storeUtmParameters_def isStorageAvailable_def convertParams_all_undefined
        JSON_stringify_empty Let_def)

theorem store_all_undefined_witness:
  \<open>present \<lparr>present = True, blocked = False, items = [''utm_parameters'' \<mapsto> ''{"utm_source":"old"}'']\<rparr> \<and>
   \<not> blocked \<lparr>present = True, blocked = False, items = [''utm_parameters'' \<mapsto> ''{"utm_source":"old"}'']\<rparr> \<and>
   length [(''utm_source'', None :: string option)] > 0 \<and>
   list_all (\<lambda>(k, v). v = None) [(''utm_source'', None :: string option)] \<and>
   items (storeUtmParameters
            \<lparr>present = True, blocked = False, items = [''utm_parameters'' \<mapsto> ''{"utm_source":"old"}'']\<rparr>
            [(''utm_source'', None)]
            \<lparr>storageKey = None, storage_keyFormat = None\<rparr>) ''utm_parameters'' = Some ''{}''\<close>
  using store_all_undefined
    [of \<open>\<lparr>present = True, blocked = False, items = [''utm_parameters'' \<mapsto> ''{"utm_source":"old"}'']\<rparr>\<close>
        "[(''utm_source'', None)]" "\<lparr>storageKey = None, storage_keyFormat = None\<rparr>"]
  by (simp add: orDefault_def DEFAULT_STORAGE_KEY_def)

section \<open>C6: corrupt stored values read as absent\<close>

lemma invalid_of_fails:
  assumes "failsStructuralValidation v"
  shows "\<not> isValidStoredData v None"
proof (cases v)
  case (JObj es)
  with assms obtain a b where ab: "(a, b) \<in> set es"
    and bad: "\<not> isUtmKey a \<or> (case b of JStr _ \<Rightarrow> False | _ \<Rightarrow> True)"
    by (auto simp: failsStructuralValidation_def list_ex_iff)
  from ab have ne: "es \<noteq> []" by auto
  from bad have "\<not> (if (case b of JStr _ \<Rightarrow> False | _ \<Rightarrow> True) then False else isUtmKey a)"
    by (cases b) auto
  then have "\<not> (case (a, b) of (key, value) \<Rightarrow>
                 if (case value of JStr _ \<Rightarrow> False | _ \<Rightarrow> True) then False
                 else if None = Some snake_case then isSnakeCaseUtmKey key
                 else if None = Some camelCase then isCamelCaseUtmKey key
                 else isUtmKey key)"
    by (simp split: if_splits)
  with ab have "\<not> list_all (\<lambda>(key, value).
                 if (case value of JStr _ \<Rightarrow> False | _ \<Rightarrow> True) then False
                 else if None = Some snake_case then isSnakeCaseUtmKey key
                 else if None = Some camelCase then isCamelCaseUtmKey key
                 else isUtmKey key) es"
    unfolding list_all_iff by blast
  with ne show ?thesis
    unfolding isValidStoredData_def JObj by simp
qed (simp_all add: isValidStoredData_def)

text \<open>
  C6: when the string in the slot does not parse as JSON, or parses to a value that is
  not a plain object, has a key that is not a UTM key or has a value that is not a string,
  \<open>getStoredUtmParameters\<close> returns null. The function is total: every exception of the
  source is a branch that returns null.
\<close>

theorem corrupt_read:
  assumes "JSON_parse raw = None \<or> (\<exists>v. JSON_parse raw = Some v \<and> failsStructuralValidation v)"
    and "items st (orDefault (storageKey opts) DEFAULT_STORAGE_KEY) = Some raw"
  shows "fst (getStoredUtmParameters JSON_parse st opts) = None"
  using assms invalid_of_fails
  by (auto simp: getStoredUtmParameters_def isStorageAvailable_def Let_def split: option.splits)

lemma parse_json_ex1: "parse_json ''not valid json'' = None"
  by code_simp

lemma parse_json_ex2: \<open>parse_json ''{"utm_source":123}'' = Some (JObj [(''utm_source'', JNum ''123'')])\<close>
  by code_simp

theorem corrupt_read_witness:
  \<open>parse_json ''not valid json'' = None \<and>
   fst (getStoredUtmParameters parse_json
          \<lparr>present = True, blocked = False, items = [''utm_parameters'' \<mapsto> ''not valid json'']\<rparr>
          \<lparr>storageKey = None, storage_keyFormat = None\<rparr>) = None \<and>
   parse_json ''{"utm_source":123}'' = Some (JObj [(''utm_source'', JNum ''123'')]) \<and>
   failsStructuralValidation (JObj [(''utm_source'', JNum ''123'')]) \<and>
   fst (getStoredUtmParameters parse_json
          \<lparr>present = True, blocked = False, items = [''utm_parameters'' \<mapsto> ''{"utm_source":123}'']\<rparr>
          \<lparr>storageKey = None, storage_keyFormat = None\<rparr>) = None\<close>
proof -
  have f: "failsStructuralValidation (JObj [(''utm_source'', JNum ''123'')])"
    by (simp add: failsStructuralValidation_def)
  have 1: \<open>fst (getStoredUtmParameters parse_json
          \<lparr>present = True, blocked = False, items = [''utm_parameters'' \<mapsto> ''not valid json'']\<rparr>
          \<lparr>storageKey = None, storage_keyFormat = None\<rparr>) = None\<close>
    using corrupt_read [of parse_json "''not valid json''"
        \<open>\<lparr>present = True, blocked = False, items = [''utm_parameters'' \<mapsto> ''not valid json'']\<rparr>\<close>
        "\<lparr>storageKey = None, storage_keyFormat = None\<rparr>"] parse_json_ex1
    by (simp add: orDefault_def DEFAULT_STORAGE_KEY_def)
  have 2: \<open>fst (getStoredUtmParameters parse_json
          \<lparr>present = True, blocked = False, items = [''utm_parameters'' \<mapsto> ''{"utm_source":123}'']\<rparr>
          \<lparr>storageKey = None, storage_keyFormat = None\<rparr>) = None\<close>
    using corrupt_read [of parse_json \<open>''{"utm_source":123}''\<close>
        \<open>\<lparr>present = True, blocked = False, items = [''utm_parameters'' \<mapsto> ''{"utm_source":123}'']\<rparr>\<close>
        "\<lparr>storageKey = None, storage_keyFormat = None\<rparr>"] parse_json_ex2 f
    by (simp add: orDefault_def DEFAULT_STORAGE_KEY_def)
  show ?thesis using 1 2 f parse_json_ex1 parse_json_ex2 by simp
qed

section \<open>C9: query placement drops the userinfo\<close>

lemma set_hash_fields [simp]:
  "scheme (set_hash u v) = scheme u" "hostport (set_hash u v) = hostport u"
  "path (set_hash u v) = path u" "query (set_hash u v) = query u"
  "username (set_hash u v) = username u" "password (set_hash u v) = password u"
  by (simp_all add: set_hash_def Let_def)

lemma removeFromFragment_fields [simp]:
  "scheme (removeFromFragment u p) = scheme u" "hostport (removeFromFragment u p) = hostport u"
  "path (removeFromFragment u p) = path u" "query (removeFromFragment u p) = query u"
  by (simp_all add: removeFromFragment_def Let_def)

lemma removeFromFragment_userinfo:
  "fragment (removeFromFragment (u\<lparr>username := a, password := b\<rparr>) p) = fragment (removeFromFragment u p)"
  by (simp add: removeFromFragment_def Let_def hash_def set_hash_def)

lemma appendToQuery_userinfo:
  "appendToQuery (u\<lparr>username := a, password := b\<rparr>) p pe = appendToQuery u p pe"
  by (simp add: appendToQuery_def Let_def protocol_def host_def pathname_def hash_def
        searchParams_def removeFromFragment_userinfo)

text \<open>
  C9: for a URL that parses and a parameter object with a valid UTM entry, the result of
  query placement is rebuilt from the protocol, the host and the path, followed by the
  query and the fragment: the user name and the password of the input are not part of it,
  and the result is the one of the same URL without userinfo.
\<close>

theorem query_placement_userinfo:
  assumes "parse url = Some u" and "hasValidUtmEntries p"
    and "orDefault (toFragment opts) False = False"
  shows "(\<exists>tail. appendUtmParameters parse url p opts =
                  protocol u @ ''//'' @ host u @ pathname u @ tail) \<and>
         appendUtmParameters parse url p opts =
           appendUtmParameters (\<lambda>_. Some (u\<lparr>username := [], password := []\<rparr>)) url p opts"
  using assms
  by (simp add: appendUtmParameters_def appendToQuery_userinfo)
     (simp add: appendToQuery_def Let_def protocol_def host_def pathname_def)

theorem query_placement_userinfo_witness:
  "parse_http_url ''https://user:pw@example.com/page'' =
     Some \<lparr>scheme = ''https'', username = ''user'', password = ''pw'',
           hostport = Some ''example.com'', path = ''/page'', query = None, fragment = None\<rparr> \<and>
   hasValidUtmEntries [(''utm_source'', Some ''x'')] \<and>
   appendUtmParameters parse_http_url ''https://user:pw@example.com/page''
     [(''utm_source'', Some ''x'')] \<lparr>toFragment = None, preserveExisting = None\<rparr> =
   ''https://example.com/page?utm_source=x'' \<and>
   appendUtmParameters
     (\<lambda>_. Some \<lparr>scheme = ''https'', username = [], password = [],
                  hostport = Some ''example.com'', path = ''/page'', query = None, fragment = None\<rparr>)
     ''https://user:pw@example.com/page''
     [(''utm_source'', Some ''x'')] \<lparr>toFragment = None, preserveExisting = None\<rparr> =
   ''https://example.com/page?utm_source=x''"
proof -
  have p: "parse_http_url ''https://user:pw@example.com/page'' =
     Some \<lparr>scheme = ''https'', username = ''user'', password = ''pw'',
           hostport = Some ''example.com'', path = ''/page'', query = None, fragment = None\<rparr>"
    by code_simp
  have v: "hasValidUtmEntries [(''utm_source'', Some ''x'')]"
    by code_simp
  have r: "appendUtmParameters parse_http_url ''https://user:pw@example.com/page''
     [(''utm_source'', Some ''x'')] \<lparr>toFragment = None, preserveExisting = None\<rparr> =
   ''https://example.com/page?utm_source=x''"
    by code_simp
  show ?thesis
    using query_placement_userinfo
      [of parse_http_url "''https://user:pw@example.com/page''"
          "\<lparr>scheme = ''https'', username = ''user'', password = ''pw'',
             hostport = Some ''example.com'', path = ''/page'', query = None, fragment = None\<rparr>"
          "[(''utm_source'', Some ''x'')]" "\<lparr>toFragment = None, preserveExisting = None\<rparr>"]
      p v r
    by (simp add: orDefault_def)
qed

section \<open>C4: the filter of extraction\<close>

lemma keys_obj_set: "fst ` set (obj_set ps k v) = insert k (fst ` set ps)"
  by (induction ps k v rule: obj_set.induct) auto

lemma capture_fold_keys:
  "fst ` set (fold (\<lambda>(key, value) ps. if P key then obj_set ps key (Some value) else ps) l acc)
     = fst ` set acc \<union> {k \<in> fst ` set l. P k}"
proof (induction l arbitrary: acc)
  case Nil
  then show ?case by simp
next
  case (Cons e l)
  obtain key val where e: "e = (key, val)" by (cases e)
  show ?case unfolding e by (auto simp: Cons keys_obj_set)
qed

lemma capture_inner_eq:
  "(\<lambda>(key, value) ps.
       if isSnakeCaseUtmKey key then
         (if (case allowedSet of None \<Rightarrow> True | Some a \<Rightarrow> key \<in> set a)
          then obj_set ps key (Some value) else ps)
       else ps)
   = (\<lambda>(key, value) ps.
       if isSnakeCaseUtmKey key \<and> (case allowedSet of None \<Rightarrow> True | Some a \<Rightarrow> key \<in> set a)
       then obj_set ps key (Some value) else ps)"
  by (auto simp: fun_eq_iff)

text \<open>
  C4, as stated: with an allowlist, the empty one included, a query key is captured only
  if it is a member of the allowlist. With the empty allowlist the key \<open>utm_source\<close> is
  captured all the same: the source builds its lookup set only from a non-empty list.
\<close>

theorem capture_filter_counterexample:
  "isSnakeCaseUtmKey ''utm_source'' \<and>
   captureUtmParameters parse_http_url None (Some ''https://example.com/?utm_source=x'')
     \<lparr>capture_keyFormat = None, allowedParameters = Some []\<rparr> = [(''utm_source'', Some ''x'')]"
  by code_simp

text \<open>
  C4, amended: for a URL that parses, a query key is captured if and only if it starts
  with \<open>utm_\<close> and, when a non-empty allowlist is given, is a member of it; an empty
  allowlist filters nothing. With the compact key format the captured object is
  converted after the filter.
\<close>

theorem capture_filter:
  assumes "(case url of Some x \<Rightarrow> x | None \<Rightarrow> (case loc of Some h \<Rightarrow> h | None \<Rightarrow> [])) = s"
    and "s \<noteq> []" and "parse s = Some u"
  shows "(k \<in> fst ` set (captureUtmParameters parse loc url (opts\<lparr>capture_keyFormat := None\<rparr>)) \<longleftrightarrow>
            k \<in> fst ` set (searchParams u) \<and> isSnakeCaseUtmKey k \<and>
            (case allowedParameters opts of
               None \<Rightarrow> True
             | Some a \<Rightarrow> a = [] \<or> k \<in> set a)) \<and>
         captureUtmParameters parse loc url opts =
           (if capture_keyFormat opts = Some camelCase
            then convertParams (captureUtmParameters parse loc url (opts\<lparr>capture_keyFormat := None\<rparr>)) camelCase
            else captureUtmParameters parse loc url (opts\<lparr>capture_keyFormat := None\<rparr>))"
proof -
  have 2: "captureUtmParameters parse loc url opts =
           (if capture_keyFormat opts = Some camelCase
            then convertParams (captureUtmParameters parse loc url (opts\<lparr>capture_keyFormat := None\<rparr>)) camelCase
            else captureUtmParameters parse loc url (opts\<lparr>capture_keyFormat := None\<rparr>))"
    using assms
    by (cases "capture_keyFormat opts"; cases "the (capture_keyFormat opts)")
       (simp_all add: captureUtmParameters_def orDefault_def Let_def)
  have 1: "(k \<in> fst ` set (captureUtmParameters parse loc url (opts\<lparr>capture_keyFormat := None\<rparr>)) \<longleftrightarrow>
            k \<in> fst ` set (searchParams u) \<and> isSnakeCaseUtmKey k \<and>
            (case allowedParameters opts of
               None \<Rightarrow> True
             | Some a \<Rightarrow> a = [] \<or> k \<in> set a))"
    using assms
    by (simp add: captureUtmParameters_def orDefault_def Let_def capture_inner_eq capture_fold_keys)
       (auto split: option.splits)
  from 1 2 show ?thesis by blast
qed

theorem capture_filter_witness:
  "parse_http_url ''https://example.com/?utm_source=linkedin&utm_term=k&ref=abc'' =
     Some \<lparr>scheme = ''https'', username = [], password = [], hostport = Some ''example.com'',
           path = ''/'', query = Some ''utm_source=linkedin&utm_term=k&ref=abc'', fragment = None\<rparr> \<and>
   captureUtmParameters parse_http_url None
     (Some ''https://example.com/?utm_source=linkedin&utm_term=k&ref=abc'')
     \<lparr>capture_keyFormat = None, allowedParameters = Some [''utm_source'']\<rparr> =
     [(''utm_source'', Some ''linkedin'')] \<and>
   ''utm_source'' \<in> fst ` set (captureUtmParameters parse_http_url None
     (Some ''https://example.com/?utm_source=linkedin&utm_term=k&ref=abc'')
     \<lparr>capture_keyFormat = None, allowedParameters = Some [''utm_source'']\<rparr>) \<and>
   ''utm_term'' \<notin> fst ` set (captureUtmParameters parse_http_url None
     (Some ''https://example.com/?utm_source=linkedin&utm_term=k&ref=abc'')
     \<lparr>capture_keyFormat = None, allowedParameters = Some [''utm_source'']\<rparr>)"
proof -
  have p: "parse_http_url ''https://example.com/?utm_source=linkedin&utm_term=k&ref=abc'' =
     Some \<lparr>scheme = ''https'', username = [], password = [], hostport = Some ''example.com'',
           path = ''/'', query = Some ''utm_source=linkedin&utm_term=k&ref=abc'', fragment = None\<rparr>"
    by code_simp
  have c: "captureUtmParameters parse_http_url None
     (Some ''https://example.com/?utm_source=linkedin&utm_term=k&ref=abc'')
     \<lparr>capture_keyFormat = None, allowedParameters = Some [''utm_source'']\<rparr> =
     [(''utm_source'', Some ''linkedin'')]"
    by code_simp
  have s: "isSnakeCaseUtmKey ''utm_source'' \<and> isSnakeCaseUtmKey ''utm_term'' \<and>
           searchParams \<lparr>scheme = ''https'', username = [], password = [], hostport = Some ''example.com'',
             path = ''/'', query = Some ''utm_source=linkedin&utm_term=k&ref=abc'', fragment = None\<rparr> =
           [(''utm_source'', ''linkedin''), (''utm_term'', ''k''), (''ref'', ''abc'')]"
    by code_simp
  have a: "''utm_source'' \<in> fst ` set (captureUtmParameters parse_http_url None
     (Some ''https://example.com/?utm_source=linkedin&utm_term=k&ref=abc'')
     \<lparr>capture_keyFormat = None, allowedParameters = Some [''utm_source'']\<rparr>)"
    using capture_filter
      [where url = "Some ''https://example.com/?utm_source=linkedin&utm_term=k&ref=abc''"
         and loc = None and parse = parse_http_url and k = "''utm_source''"
         and opts = "\<lparr>capture_keyFormat = None, allowedParameters = Some [''utm_source'']\<rparr>",
       OF _ _ p] s
    by simp
  have b: "''utm_term'' \<notin> fst ` set (captureUtmParameters parse_http_url None
     (Some ''https://example.com/?utm_source=linkedin&utm_term=k&ref=abc'')
     \<lparr>capture_keyFormat = None, allowedParameters = Some [''utm_source'']\<rparr>)"
    using capture_filter
      [where url = "Some ''https://example.com/?utm_source=linkedin&utm_term=k&ref=abc''"
         and loc = None and parse = parse_http_url and k = "''utm_term''"
         and opts = "\<lparr>capture_keyFormat = None, allowedParameters = Some [''utm_source'']\<rparr>",
       OF _ _ p] s
    by simp
  show ?thesis using p c a b by blast
qed

section \<open>Encoding and decoding\<close>

lemma code_hexDigit: "n < 16 \<Longrightarrow> code (hexDigit n) = (if n < 10 then 48 + n else 55 + n)"
  by (simp add: hexDigit_def code_char_of)

lemma isHexDigit_hexDigit: "n < 16 \<Longrightarrow> isHexDigit (hexDigit n)"
  by (auto simp: isHexDigit_def isDigit_def code_hexDigit)

lemma hexValue_hexDigit: "n < 16 \<Longrightarrow> hexValue (hexDigit n) = n"
  by (auto simp: hexValue_def isDigit_def code_hexDigit)

lemma char_of_code: "char_of (code c) = c"
  by (simp add: code_def)

lemma percentDecode_percentByte: "percentDecode (percentByte c @ r) = c # percentDecode r"
proof -
  have d: "code c div 16 < 16" and m: "code c mod 16 < 16"
    using code_lt [of c] by simp_all
  have "16 * (code c div 16) + code c mod 16 = code c" by simp
  then show ?thesis
    by (simp add: percentByte_def isHexDigit_hexDigit hexValue_hexDigit d m char_of_code)
qed

lemma percentDecode_plain: "c \<noteq> CHR ''%'' \<Longrightarrow> percentDecode (c # r) = c # percentDecode r"
  by (cases r rule: percentDecode.cases) auto

lemma code_percent: "code (CHR ''%'') = 37"
  by (simp add: code_def)

lemma uriUnreserved_codes:
  "uriUnreserved c \<Longrightarrow> code c \<in> {33, 39, 40, 41, 42, 45, 46, 95, 126} \<union> {48..57} \<union> {65..90} \<union> {97..122}"
  by (auto simp: uriUnreserved_def isUpperAZ_def isLowerAZ_def isDigit_def code_def)

lemma formUnreserved_codes:
  "formUnreserved c \<Longrightarrow> code c \<in> {42, 45, 46, 95} \<union> {48..57} \<union> {65..90} \<union> {97..122}"
  by (auto simp: formUnreserved_def isUpperAZ_def isLowerAZ_def isDigit_def code_def)

lemma hexDigit_alnum: "n < 16 \<Longrightarrow> isDigit (hexDigit n) \<or> isUpperAZ (hexDigit n)"
  by (auto simp: isDigit_def isUpperAZ_def code_hexDigit)

lemma percentByte_chars:
  "d \<in> set (percentByte c) \<Longrightarrow> d = CHR ''%'' \<or> isDigit d \<or> isUpperAZ d"
proof -
  assume a: "d \<in> set (percentByte c)"
  have "code c div 16 < 16" and "code c mod 16 < 16"
    using code_lt [of c] by simp_all
  then have "isDigit (hexDigit (code c div 16)) \<or> isUpperAZ (hexDigit (code c div 16))"
    and "isDigit (hexDigit (code c mod 16)) \<or> isUpperAZ (hexDigit (code c mod 16))"
    by (simp_all only: hexDigit_alnum)
  then show ?thesis using a
    by (auto simp: percentByte_def)
qed

lemma encodeURIComponent_chars:
  "d \<in> set (encodeURIComponent s) \<Longrightarrow> uriUnreserved d \<or> d = CHR ''%''"
proof (induction s)
  case Nil
  then show ?case by (simp add: encodeURIComponent_def)
next
  case (Cons c s)
  then have "d \<in> set (if uriUnreserved c then [c] else percentByte c) \<or> d \<in> set (encodeURIComponent s)"
    by (simp add: encodeURIComponent_def)
  then show ?case
  proof
    assume "d \<in> set (if uriUnreserved c then [c] else percentByte c)"
    then show ?thesis using percentByte_chars [of d c]
      by (auto simp: uriUnreserved_def split: if_splits)
  next
    assume "d \<in> set (encodeURIComponent s)"
    then show ?thesis by (rule Cons.IH)
  qed
qed

lemma formEncode_chars:
  "d \<in> set (formEncode s) \<Longrightarrow> formUnreserved d \<or> d = CHR ''%'' \<or> d = CHR ''+''"
proof (induction s)
  case Nil
  then show ?case by (simp add: formEncode_def)
next
  case (Cons c s)
  then have "d \<in> set (if formUnreserved c then [c] else if c = CHR '' '' then ''+'' else percentByte c)
      \<or> d \<in> set (formEncode s)"
    by (simp add: formEncode_def)
  then show ?case
  proof
    assume "d \<in> set (if formUnreserved c then [c] else if c = CHR '' '' then ''+'' else percentByte c)"
    then show ?thesis using percentByte_chars [of d c]
      by (auto simp: formUnreserved_def split: if_splits)
  next
    assume "d \<in> set (formEncode s)"
    then show ?thesis by (rule Cons.IH)
  qed
qed

lemma uriUnreserved_plain:
  "uriUnreserved c \<Longrightarrow> code c \<notin> {9, 10, 13, 32, 34, 35, 37, 38, 43, 60, 61, 62, 63, 96} \<and> 32 \<le> code c \<and> code c \<le> 126"
  using uriUnreserved_codes [of c] by auto

lemma formUnreserved_plain:
  "formUnreserved c \<Longrightarrow> code c \<notin> {9, 10, 13, 32, 34, 35, 37, 38, 43, 60, 61, 62, 63, 96} \<and> 32 \<le> code c \<and> code c \<le> 126"
  using formUnreserved_codes [of c] by auto

lemma special_codes:
  "code (CHR ''&'') = 38" "code (CHR ''='') = 61" "code (CHR ''+'') = 43"
  "code (CHR ''#'') = 35" "code (CHR ''?'') = 63" "code (CHR '' '') = 32"
  by (simp_all add: code_def)

lemma encodeURIComponent_no_special:
  assumes "d \<in> set (encodeURIComponent s)"
  shows "d \<noteq> CHR ''&''" "d \<noteq> CHR ''=''" "d \<noteq> CHR ''+''" "d \<noteq> CHR ''#''" "d \<noteq> CHR ''?''"
  using encodeURIComponent_chars [OF assms] uriUnreserved_plain [of d]
  by (auto simp: special_codes)

lemma formEncode_no_special:
  assumes "d \<in> set (formEncode s)"
  shows "d \<noteq> CHR ''&''" "d \<noteq> CHR ''=''" "d \<noteq> CHR ''#''" "d \<noteq> CHR ''?''"
  using formEncode_chars [OF assms] formUnreserved_plain [of d]
  by (auto simp: special_codes)

lemma encodeURIComponent_Cons:
  "encodeURIComponent (c # s) = (if uriUnreserved c then [c] else percentByte c) @ encodeURIComponent s"
  by (simp add: encodeURIComponent_def)

lemma formEncode_Cons:
  "formEncode (c # s) =
     (if formUnreserved c then [c] else if c = CHR '' '' then ''+'' else percentByte c) @ formEncode s"
  by (simp add: formEncode_def)

lemma percentDecode_encodeURIComponent: "percentDecode (encodeURIComponent s) = s"
proof (induction s)
  case Nil
  then show ?case by (simp add: encodeURIComponent_def)
next
  case (Cons c s)
  show ?case
  proof (cases "uriUnreserved c")
    case True
    then have "c \<noteq> CHR ''%''" using uriUnreserved_plain [of c] by (auto simp: code_percent)
    then show ?thesis using True Cons
      by (simp add: encodeURIComponent_Cons percentDecode_plain)
  next
    case False
    then show ?thesis using Cons
      by (simp add: encodeURIComponent_Cons percentDecode_percentByte)
  qed
qed

lemma formDecode_encodeURIComponent: "formDecode (encodeURIComponent s) = s"
proof -
  have "plusToSpace (encodeURIComponent s) = encodeURIComponent s"
    unfolding plusToSpace_def
    by (rule map_idI) (use encodeURIComponent_no_special(3) in auto)
  then show ?thesis by (simp add: formDecode_def percentDecode_encodeURIComponent)
qed

lemma plusToSpace_append: "plusToSpace (a @ b) = plusToSpace a @ plusToSpace b"
  by (simp add: plusToSpace_def)

lemma plusToSpace_percentByte: "plusToSpace (percentByte c) = percentByte c"
proof -
  have "d \<noteq> CHR ''+''" if "d \<in> set (percentByte c)" for d
    using percentByte_chars [OF that]
    by (auto simp: isDigit_def isUpperAZ_def special_codes)
  then show ?thesis unfolding plusToSpace_def by (intro map_idI) auto
qed

lemma formDecode_formEncode: "formDecode (formEncode s) = s"
proof (induction s)
  case Nil
  then show ?case by (simp add: formDecode_def formEncode_def plusToSpace_def)
next
  case (Cons c s)
  from Cons have ih: "percentDecode (plusToSpace (formEncode s)) = s"
    by (simp add: formDecode_def)
  show ?case
  proof (cases "formUnreserved c")
    case True
    then have "c \<noteq> CHR ''%''" "c \<noteq> CHR ''+''"
      using formUnreserved_plain [of c] by (auto simp: code_percent special_codes)
    then show ?thesis using True ih
      by (simp add: formDecode_def formEncode_Cons plusToSpace_append percentDecode_plain)
         (simp add: plusToSpace_def percentDecode_plain)
  next
    case False
    show ?thesis
    proof (cases "c = CHR '' ''")
      case True
      then show ?thesis using False ih
        by (simp add: formDecode_def formEncode_Cons plusToSpace_append)
           (simp add: plusToSpace_def percentDecode_plain)
    next
      case sp: False
      then show ?thesis using False ih
        by (simp add: formDecode_def formEncode_Cons plusToSpace_append plusToSpace_percentByte
              percentDecode_percentByte)
    qed
  qed
qed

lemma split_on_nosep: "c \<notin> set x \<Longrightarrow> split_on c x = [x]"
  by (induction x) auto

lemma split_on_sep: "c \<notin> set x \<Longrightarrow> split_on c (x @ c # r) = x # split_on c r"
  by (induction x) auto

lemma split_on_join:
  "segs \<noteq> [] \<Longrightarrow> \<forall>x \<in> set segs. c \<notin> set x \<Longrightarrow> split_on c (join [c] segs) = segs"
proof (induction "[c]" segs rule: join.induct)
  case 1
  then show ?case by simp
next
  case (2 x)
  then show ?case by (simp add: split_on_nosep)
next
  case (3 x y r)
  then show ?case by (simp add: split_on_sep)
qed

lemma parsePair_form: "parsePair (formEncode k @ CHR ''='' # formEncode v) = (k, v)"
proof -
  have k: "\<And>d. d \<in> set (formEncode k) \<Longrightarrow> d \<noteq> CHR ''=''"
    using formEncode_no_special(2) by blast
  have "takeWhile (\<lambda>c. c \<noteq> CHR ''='') (formEncode k @ CHR ''='' # formEncode v) = formEncode k"
    using k by (simp add: takeWhile_append2)
  moreover have "dropWhile (\<lambda>c. c \<noteq> CHR ''='') (formEncode k @ CHR ''='' # formEncode v) = CHR ''='' # formEncode v"
    using k by (simp add: dropWhile_append2)
  ultimately show ?thesis
    by (simp add: parsePair_def str_includes_def formDecode_formEncode)
qed

lemma parsePair_uri_bare: "parsePair (encodeURIComponent k) = (k, [])"
  using encodeURIComponent_no_special(2) [of "CHR ''=''" k]
  by (auto simp: parsePair_def str_includes_def formDecode_encodeURIComponent)

lemma parsePair_uri: "parsePair (encodeURIComponent k @ CHR ''='' # encodeURIComponent v) = (k, v)"
proof -
  have k: "\<And>d. d \<in> set (encodeURIComponent k) \<Longrightarrow> d \<noteq> CHR ''=''"
    using encodeURIComponent_no_special(2) by blast
  have "takeWhile (\<lambda>c. c \<noteq> CHR ''='') (encodeURIComponent k @ CHR ''='' # encodeURIComponent v) = encodeURIComponent k"
    using k by (simp add: takeWhile_append2)
  moreover have "dropWhile (\<lambda>c. c \<noteq> CHR ''='') (encodeURIComponent k @ CHR ''='' # encodeURIComponent v) = CHR ''='' # encodeURIComponent v"
    using k by (simp add: dropWhile_append2)
  ultimately show ?thesis
    by (simp add: parsePair_def str_includes_def formDecode_encodeURIComponent)
qed

lemma usp_toString_formPair: "usp_toString l = join ''&'' (map formPair l)"
proof -
  have "(\<lambda>(k, v). formEncode k @ ''='' @ formEncode v) = formPair"
    by (auto simp: formPair_def fun_eq_iff)
  then show ?thesis by (simp add: usp_toString_def)
qed

lemma buildQueryString_queryPair: "buildQueryString l = join ''&'' (map queryPair l)"
proof -
  have "(\<lambda>(key, value). if value = [] then encodeURIComponent key
           else encodeURIComponent key @ ''='' @ encodeURIComponent value) = queryPair"
    by (auto simp: queryPair_def fun_eq_iff)
  then show ?thesis by (simp add: buildQueryString_def)
qed

lemma formPair_no_amp: "CHR ''&'' \<notin> set (formPair p)"
  using formEncode_no_special(1) by (auto simp: formPair_def)

lemma queryPair_no_amp: "CHR ''&'' \<notin> set (queryPair p)"
  using encodeURIComponent_no_special(1) by (auto simp: queryPair_def)

lemma encodeURIComponent_empty: "encodeURIComponent s = [] \<longleftrightarrow> s = []"
  by (cases s) (auto simp: encodeURIComponent_Cons percentByte_def encodeURIComponent_def)

lemma queryPair_empty: "queryPair p = [] \<longleftrightarrow> p = ([], [])"
  by (cases p) (auto simp: queryPair_def encodeURIComponent_empty)

lemma parsePair_queryPair: "parsePair (queryPair p) = p"
  by (cases p) (simp add: queryPair_def parsePair_uri parsePair_uri_bare)

lemma urlencoded_parse_toString: "urlencoded_parse (usp_toString l) = l"
proof (cases l)
  case Nil
  then show ?thesis by (simp add: urlencoded_parse_def usp_toString_def)
next
  case (Cons a r)
  have "split_on (CHR ''&'') (join ''&'' (map formPair l)) = map formPair l"
    using Cons formPair_no_amp by (intro split_on_join) auto
  moreover have "filter (\<lambda>seq. seq \<noteq> []) (map formPair l) = map formPair l"
    by (simp add: formPair_def)
  moreover have "map parsePair (map formPair l) = l"
    by (simp add: formPair_def parsePair_form map_idI)
  ultimately show ?thesis
    by (simp add: urlencoded_parse_def usp_toString_formPair)
qed

lemma urlencoded_parse_buildQueryString:
  "urlencoded_parse (buildQueryString l) = filter (\<lambda>p. p \<noteq> ([], [])) l"
proof (cases l)
  case Nil
  then show ?thesis by (simp add: urlencoded_parse_def buildQueryString_def)
next
  case (Cons a r)
  have "split_on (CHR ''&'') (join ''&'' (map queryPair l)) = map queryPair l"
    using Cons queryPair_no_amp by (intro split_on_join) auto
  moreover have "filter (\<lambda>seq. seq \<noteq> []) (map queryPair l) = map queryPair (filter (\<lambda>p. p \<noteq> ([], [])) l)"
    by (simp add: filter_map comp_def queryPair_empty)
  moreover have "map parsePair (map queryPair m) = m" for m
    by (simp add: parsePair_queryPair map_idI)
  ultimately show ?thesis
    by (simp add: urlencoded_parse_def buildQueryString_queryPair)
qed

section \<open>Converted parameter objects: lemmas\<close>

lemma obj_set_distinct: "distinct (map fst ps) \<Longrightarrow> distinct (map fst (obj_set ps k v))"
  by (induction ps k v rule: obj_set.induct) (auto simp: keys_obj_set [simplified])

lemma obj_set_values:
  "list_all (\<lambda>(k, v). P v) ps \<Longrightarrow> P v \<Longrightarrow> list_all (\<lambda>(k, v). P v) (obj_set ps k v)"
  by (induction ps k v rule: obj_set.induct) auto

lemma convert_fold_wellFormed:
  "wellFormed acc \<Longrightarrow>
   wellFormed (fold (\<lambda>(key, value) result.
                 case value of None \<Rightarrow> result | Some v \<Rightarrow> obj_set result (f key) (Some v)) p acc)"
proof (induction p arbitrary: acc)
  case Nil
  then show ?case by simp
next
  case (Cons e p)
  obtain k v where e: "e = (k, v)" by (cases e)
  show ?case
  proof (cases v)
    case None
    then show ?thesis using Cons e by simp
  next
    case (Some x)
    have "wellFormed (obj_set acc (f k) (Some x))"
      using Cons.prems obj_set_values [of "\<lambda>v. v \<noteq> None" acc "Some x" "f k"]
      by (simp add: wellFormed_def obj_set_distinct)
    then show ?thesis using Cons.IH e Some by simp
  qed
qed

lemma convertParams_wellFormed: "wellFormed (convertParams p fmt)"
  unfolding convertParams_def Let_def
  by (rule convert_fold_wellFormed) (simp add: wellFormed_def)

lemma convert_fold_keys:
  "fst ` set (fold (\<lambda>(key, value) result.
                 case value of None \<Rightarrow> result | Some v \<Rightarrow> obj_set result (f key) (Some v)) p acc)
   = fst ` set acc \<union> {f k | k v. (k, Some v) \<in> set p}"
proof (induction p arbitrary: acc)
  case Nil
  then show ?case by simp
next
  case (Cons e p)
  obtain k v where e: "e = (k, v)" by (cases e)
  show ?case
    by (cases v) (auto simp: e Cons keys_obj_set)
qed

lemma convertParams_keys:
  "fst ` set (convertParams p fmt) =
     {(if fmt = snake_case then toSnakeCase else toCamelCase) k | k v. (k, Some v) \<in> set p}"
  by (simp add: convertParams_def Let_def convert_fold_keys)

section \<open>The write loop\<close>

lemma usp_has_iff: "usp_has k l \<longleftrightarrow> k \<in> fst ` set l"
  by (force simp: usp_has_def list_ex_iff)

lemma usp_set_absent: "k \<notin> fst ` set l \<Longrightarrow> usp_set k v l = l @ [(k, v)]"
  by (induction l) auto

lemma usp_delete_keys: "fst ` set (usp_delete k l) = fst ` set l - {k}"
  by (auto simp: usp_delete_def)

lemma usp_set_delete: "usp_set k v (usp_delete k l) = usp_delete k l @ [(k, v)]"
  by (rule usp_set_absent) (simp add: usp_delete_keys)

lemma writeParams_replace:
  "wellFormed p \<Longrightarrow>
   writeParams p False sp =
     filter (\<lambda>(k, v). k \<notin> fst ` set p) sp @ map (\<lambda>(k, v). (k, the v)) p"
proof (induction p arbitrary: sp)
  case Nil
  then show ?case by (simp add: writeParams_def)
next
  case (Cons e p)
  obtain k v where e: "e = (k, Some v)" using Cons.prems by (cases e) (auto simp: wellFormed_def)
  from Cons.prems e have wf: "wellFormed p" and k: "k \<notin> fst ` set p"
    by (auto simp: wellFormed_def)
  have "writeParams (e # p) False sp = writeParams p False (usp_delete k sp @ [(k, v)])"
    by (simp add: writeParams_def e usp_set_delete)
  also have "\<dots> = filter (\<lambda>(k, v). k \<notin> fst ` set p) (usp_delete k sp @ [(k, v)]) @ map (\<lambda>(k, v). (k, the v)) p"
    by (rule Cons.IH [OF wf])
  also have "\<dots> = filter (\<lambda>(k, v). k \<notin> fst ` set (e # p)) sp @ map (\<lambda>(k, v). (k, the v)) (e # p)"
    using k by (auto simp: e usp_delete_def intro: filter_cong)
  finally show ?case .
qed

section \<open>The hash setter on written text\<close>

lemma set_hash_plain:
  assumes "v \<noteq> []" and "\<forall>c \<in> set v. fragmentPlain c"
  shows "set_hash u v = u\<lparr>fragment := Some v\<rparr>"
proof -
  have 1: "\<not> startsWith v ''#''"
    using assms by (cases v) (auto simp: startsWith_def fragmentPlain_def)
  have 2: "filter (\<lambda>c. code c \<notin> {9, 10, 13}) v = v"
    using assms(2) by (auto simp: fragmentPlain_def intro: filter_True)
  have 3: "concat (map (\<lambda>c. if fragmentEscaped c then percentByte c else [c]) v) = v"
    using assms(2) by (induction v) (auto simp: fragmentPlain_def)
  show ?thesis using assms(1) 1 2 3 by (simp add: set_hash_def Let_def)
qed

lemma join_chars: "c \<in> set (join sep xs) \<Longrightarrow> c \<in> set sep \<or> (\<exists>x \<in> set xs. c \<in> set x)"
  by (induction sep xs rule: join.induct) auto

lemma join_nonempty: "x \<in> set xs \<Longrightarrow> x \<noteq> [] \<Longrightarrow> join sep xs \<noteq> []"
  by (induction sep xs rule: join.induct) auto

lemma join_empty_list: "join sep xs = [] \<Longrightarrow> xs = [] \<or> (sep = [] \<and> (\<forall>x \<in> set xs. x = [])) \<or> xs = [[]]"
  by (induction sep xs rule: join.induct) auto

lemma plain_uri: "uriUnreserved c \<Longrightarrow> fragmentPlain c"
  using uriUnreserved_plain [of c]
  by (auto simp: fragmentPlain_def fragmentEscaped_def special_codes)

lemma plain_form: "formUnreserved c \<Longrightarrow> fragmentPlain c"
  using formUnreserved_plain [of c]
  by (auto simp: fragmentPlain_def fragmentEscaped_def special_codes)

lemma plain_marks:
  "fragmentPlain (CHR ''%'')" "fragmentPlain (CHR ''+'')" "fragmentPlain (CHR ''&'')" "fragmentPlain (CHR ''='')"
  by (simp_all add: fragmentPlain_def fragmentEscaped_def code_def)

lemma buildQueryString_plain: "c \<in> set (buildQueryString l) \<Longrightarrow> fragmentPlain c"
proof -
  assume "c \<in> set (buildQueryString l)"
  then have "c = CHR ''&'' \<or> (\<exists>p \<in> set l. c \<in> set (queryPair p))"
    using join_chars [of c "''&''" "map queryPair l"] by (auto simp: buildQueryString_queryPair)
  then show ?thesis
    using encodeURIComponent_chars plain_uri plain_marks
    by (auto simp: queryPair_def split: if_splits)
qed

lemma usp_toString_plain: "c \<in> set (usp_toString l) \<Longrightarrow> fragmentPlain c"
proof -
  assume "c \<in> set (usp_toString l)"
  then have "c = CHR ''&'' \<or> (\<exists>p \<in> set l. c \<in> set (formPair p))"
    using join_chars [of c "''&''" "map formPair l"] by (auto simp: usp_toString_formPair)
  then show ?thesis
    using formEncode_chars plain_form plain_marks
    by (auto simp: formPair_def)
qed

section \<open>The two locations of a URL object: lemmas\<close>

lemma fold_usp_delete: "fold usp_delete ks l = filter (\<lambda>(k, v). k \<notin> set ks) l"
proof (induction ks arbitrary: l)
  case Nil
  then show ?case by simp
next
  case (Cons a ks)
  have "fold usp_delete (a # ks) l = fold usp_delete ks (usp_delete a l)" by simp
  also have "\<dots> = filter (\<lambda>(k, v). k \<notin> set ks) (usp_delete a l)" by (rule Cons)
  also have "\<dots> = filter (\<lambda>(k, v). k \<notin> set (a # ks)) l"
    by (auto simp: usp_delete_def intro: filter_cong)
  finally show ?case .
qed

lemma formPair_nonempty: "formPair p \<noteq> []"
  by (simp add: formPair_def)

lemma usp_toString_empty: "usp_toString l = [] \<longleftrightarrow> l = []"
proof
  assume "usp_toString l = []"
  then show "l = []"
    using join_nonempty [of _ "map formPair l" "''&''"] formPair_nonempty
    by (cases l) (auto simp: usp_toString_formPair)
next
  assume "l = []"
  then show "usp_toString l = []" by (simp add: usp_toString_def)
qed

lemma usp_toString_no_question: "\<not> startsWith (usp_toString l) ''?''"
proof
  assume "startsWith (usp_toString l) ''?''"
  then have "CHR ''?'' \<in> set (usp_toString l)"
    by (cases "usp_toString l") (auto simp: startsWith_def)
  then have "\<exists>p \<in> set l. CHR ''?'' \<in> set (formPair p)"
    using join_chars [of "CHR ''?''" "''&''" "map formPair l"] by (auto simp: usp_toString_formPair)
  then show False
    using formEncode_no_special(4) by (auto simp: formPair_def)
qed

lemma buildQueryString_no_question: "\<not> startsWith (buildQueryString l) ''?''"
proof
  assume "startsWith (buildQueryString l) ''?''"
  then have "CHR ''?'' \<in> set (buildQueryString l)"
    by (cases "buildQueryString l") (auto simp: startsWith_def)
  then have "\<exists>p \<in> set l. CHR ''?'' \<in> set (queryPair p)"
    using join_chars [of "CHR ''?''" "''&''" "map queryPair l"] by (auto simp: buildQueryString_queryPair)
  then show False
    using encodeURIComponent_no_special(5) by (auto simp: queryPair_def split: if_splits)
qed

lemma hash_set_hash_toString:
  "hash (set_hash u (usp_toString l)) = (if l = [] then [] else ''#'' @ usp_toString l)"
proof (cases "l = []")
  case True
  then show ?thesis by (simp add: usp_toString_def set_hash_def hash_def)
next
  case False
  then have ne: "usp_toString l \<noteq> []" by (simp add: usp_toString_empty)
  then show ?thesis
    using set_hash_plain [of "usp_toString l" u] usp_toString_plain False
    by (simp add: hash_def)
qed

lemma read_back_toString:
  "new_URLSearchParams (drop 1 (hash (set_hash u (usp_toString l)))) = l"
proof (cases "l = []")
  case True
  then show ?thesis
    by (simp add: hash_set_hash_toString new_URLSearchParams_def urlencoded_parse_def startsWith_def)
next
  case False
  then show ?thesis
    using usp_toString_no_question [of l]
    by (simp add: hash_set_hash_toString new_URLSearchParams_def urlencoded_parse_toString)
qed

lemma read_back_toString_Suc:
  "new_URLSearchParams (drop (Suc 0) (hash (set_hash u (usp_toString l)))) = l"
  using read_back_toString [of u l] by simp

lemma removeFromFragment_cases:
  "removeFromFragment u p =
     (if str_includes (drop 1 (hash u)) (CHR ''='')
      then set_hash u (usp_toString (filter (\<lambda>(k, v). k \<notin> fst ` set p)
                                            (new_URLSearchParams (drop 1 (hash u)))))
      else u)"
  by (auto simp: removeFromFragment_def Let_def fold_usp_delete str_includes_def)

lemma appendToQuery_shape:
  "\<exists>q. appendToQuery u p pe =
         protocol u @ ''//'' @ host u @ pathname u @ q @ hash (removeFromFragment u p) \<and>
       q = (let s = buildQueryString (writeParams p pe (searchParams u)) in if s = [] then [] else ''?'' @ s)"
proof -
  have "startsWith h ''#''" if "h = hash (removeFromFragment u p)" "h \<noteq> []" for h
    using that by (auto simp: hash_def startsWith_def split: option.splits if_splits)
  then show ?thesis
    by (simp add: appendToQuery_def Let_def protocol_def host_def pathname_def searchParams_def)
qed

lemma update_query_twice: "update_query (update_query u a) b = update_query u b"
  by (simp add: update_query_def Let_def)

lemma removeFromQuery_fold:
  "fold (\<lambda>key (u, l). let l' = usp_delete key l in (update_query u l', l')) ks (u, l) =
     (if ks = [] then (u, l)
      else (update_query u (fold usp_delete ks l), fold usp_delete ks l))"
proof -
  define step :: "string \<Rightarrow> URL \<times> URLSearchParams \<Rightarrow> URL \<times> URLSearchParams"
    where "step = (\<lambda>key (u, l). let l' = usp_delete key l in (update_query u l', l'))"
  have step: "step a (u, l) = (update_query u (usp_delete a l), usp_delete a l)" for a u l
    by (simp add: step_def Let_def)
  have "fold step ks (u, l) =
     (if ks = [] then (u, l)
      else (update_query u (fold usp_delete ks l), fold usp_delete ks l))"
  proof (induction ks arbitrary: u l)
    case Nil
    then show ?case by simp
  next
    case (Cons a ks)
    show ?case
      by (cases "ks = []") (simp_all add: Cons step update_query_twice)
  qed
  then show ?thesis by (simp add: step_def)
qed

lemma removeFromQuery_cases:
  "removeFromQuery u p =
     (if p = [] then u
      else update_query u (filter (\<lambda>(k, v). k \<notin> fst ` set p) (searchParams u)))"
  by (simp add: removeFromQuery_def removeFromQuery_fold fold_usp_delete)

lemma searchParams_update_query: "searchParams (update_query u l) = l"
proof (cases "l = []")
  case True
  then show ?thesis
    by (simp add: searchParams_def update_query_def usp_toString_def urlencoded_parse_def)
next
  case False
  then show ?thesis
    by (simp add: searchParams_def update_query_def Let_def usp_toString_empty urlencoded_parse_toString)
qed

lemma searchParams_set_hash: "searchParams (set_hash u v) = searchParams u"
  by (simp add: searchParams_def)

lemma hash_update_query: "hash (update_query u l) = hash u"
  by (simp add: hash_def update_query_def Let_def)

lemma hash_removeFromQuery: "hash (removeFromQuery u p) = hash u"
  by (simp add: removeFromQuery_cases hash_update_query)

lemma searchParams_fragmentResult:
  "p \<noteq> [] \<Longrightarrow>
   searchParams (fragmentResult u p pe) = filter (\<lambda>(k, v). k \<notin> fst ` set p) (searchParams u)"
  by (simp add: fragmentResult_def Let_def searchParams_set_hash removeFromQuery_cases
        searchParams_update_query)

lemma hasValid_nonempty: "hasValidUtmEntries p \<Longrightarrow> toSnakeCaseParams p \<noteq> []"
proof -
  assume "hasValidUtmEntries p"
  then obtain k v where "(k, Some v) \<in> set p"
    by (auto simp: hasValidUtmEntries_def list_ex_iff)
  then have "toSnakeCase k \<in> fst ` set (toSnakeCaseParams p)"
    unfolding toSnakeCaseParams_def convertParams_keys by auto
  then show ?thesis by auto
qed

lemma writeParams_Cons:
  "writeParams ((a, Some x) # p) pe sp =
     writeParams p pe (if pe \<and> usp_has a sp then sp else usp_delete a sp @ [(a, x)])"
  by (simp add: writeParams_def usp_set_delete)

lemma writeParams_Cons_None: "writeParams ((a, None) # p) pe sp = writeParams p pe sp"
  by (simp add: writeParams_def)

lemma writeParams_Nil: "writeParams [] pe sp = sp"
  by (simp add: writeParams_def)

lemma writeParams_other_key:
  "k \<notin> fst ` set p \<Longrightarrow>
   filter (\<lambda>(a, b). a = k) (writeParams p pe sp) = filter (\<lambda>(a, b). a = k) sp"
proof (induction p arbitrary: sp)
  case Nil
  then show ?case by (simp add: writeParams_Nil)
next
  case (Cons e p)
  obtain a v where e: "e = (a, v)" by (cases e)
  with Cons.prems have ak: "a \<noteq> k" and kp: "k \<notin> fst ` set p" by auto
  show ?case
  proof (cases v)
    case None
    then show ?thesis using Cons.IH [OF kp] e by (simp add: writeParams_Cons_None)
  next
    case (Some x)
    have "filter (\<lambda>(a, b). a = k) (usp_delete a sp @ [(a, x)]) = filter (\<lambda>(a, b). a = k) sp"
      using ak by (auto simp: usp_delete_def intro: filter_cong)
    then show ?thesis using Cons.IH [OF kp] e Some by (simp add: writeParams_Cons)
  qed
qed

lemma writeParams_written_key:
  assumes "wellFormed p" and "(k, Some v) \<in> set p" and "\<not> pe \<or> \<not> usp_has k sp"
  shows "filter (\<lambda>(a, b). a = k) (writeParams p pe sp) = [(k, v)]"
  using assms
proof (induction p arbitrary: sp)
  case Nil
  then show ?case by simp
next
  case (Cons e p)
  from Cons.prems(1) obtain a x where e: "e = (a, Some x)"
    by (cases e) (auto simp: wellFormed_def)
  from Cons.prems(1) e have wf: "wellFormed p" and ap: "a \<notin> fst ` set p"
    by (auto simp: wellFormed_def)
  show ?case
  proof (cases "a = k")
    case True
    with Cons.prems(2) ap e have xv: "x = v" by force
    have "filter (\<lambda>(a, b). a = k) (writeParams p pe (usp_delete k sp @ [(k, v)])) =
          filter (\<lambda>(a, b). a = k) (usp_delete k sp @ [(k, v)])"
      using ap True by (intro writeParams_other_key) simp
    also have "\<dots> = [(k, v)]"
      by (auto simp: usp_delete_def filter_empty_conv)
    finally show ?thesis using True xv e Cons.prems(3) by (auto simp: writeParams_Cons)
  next
    case False
    with Cons.prems(2) e have kv: "(k, Some v) \<in> set p" by auto
    have "\<not> pe \<or> \<not> usp_has k (if pe \<and> usp_has a sp then sp else usp_delete a sp @ [(a, x)])"
      using Cons.prems(3) False by (auto simp: usp_has_iff usp_delete_keys)
    from Cons.IH [OF wf kv this] show ?thesis by (simp add: e writeParams_Cons)
  qed
qed

lemma split_buildQueryString:
  "l \<noteq> [] \<Longrightarrow> split_on (CHR ''&'') (buildQueryString l) = map queryPair l"
  unfolding buildQueryString_queryPair
  using queryPair_no_amp by (intro split_on_join) auto

lemma queryPair_bare: "queryPair (k, []) = encodeURIComponent k"
  by (simp add: queryPair_def)

lemma showsBareKey_written:
  assumes "filter (\<lambda>(a, b). a = k) l = [(k, [])]"
  shows "showsBareKey (buildQueryString l) k"
proof -
  from assms have "(k, []) \<in> set (filter (\<lambda>(a, b). a = k) l)" by simp
  then have kin: "(k, []) \<in> set l" by simp
  then have ne: "l \<noteq> []" by auto
  have 1: "encodeURIComponent k \<in> set (map queryPair l)"
    using kin queryPair_bare [of k] by force
  have 2: "\<not> str_includes seg (CHR ''='')"
    if "seg \<in> set (map queryPair l)" "fst (parsePair seg) = k" for seg
  proof -
    from that(1) obtain a b where ab: "(a, b) \<in> set l" "seg = queryPair (a, b)" by auto
    with that(2) have "a = k" by (simp add: parsePair_queryPair)
    with ab(1) have "(k, b) \<in> set (filter (\<lambda>(a, b). a = k) l)" by simp
    with assms have "b = []" by simp
    with ab(2) \<open>a = k\<close> have "seg = encodeURIComponent k" by (simp add: queryPair_bare)
    then show ?thesis
      using encodeURIComponent_no_special(2) [of "CHR ''=''" k] by (auto simp: str_includes_def)
  qed
  show ?thesis
    using 1 2 by (auto simp: showsBareKey_def split_buildQueryString [OF ne] list_all_iff)
qed

lemma buildQueryString_nonempty:
  "(k, v) \<in> set l \<Longrightarrow> k \<noteq> [] \<Longrightarrow> buildQueryString l \<noteq> []"
  unfolding buildQueryString_queryPair
  by (rule join_nonempty [of "queryPair (k, v)"]) (auto simp: queryPair_empty)

lemma fragmentResult_written:
  assumes "buildQueryString (writeParams p pe (new_URLSearchParams (drop 1 (hash u)))) \<noteq> []"
  shows "fragmentResult u p pe =
           (removeFromQuery u p)\<lparr>fragment :=
              Some (buildQueryString (writeParams p pe (new_URLSearchParams (drop 1 (hash u)))))\<rparr>"
  using assms buildQueryString_plain
  by (simp add: fragmentResult_def Let_def hash_removeFromQuery set_hash_plain)

lemma startsWith_utm_nonempty: "isSnakeCaseUtmKey k \<Longrightarrow> k \<noteq> []"
  by (auto simp: isSnakeCaseUtmKey_def startsWith_def)

section \<open>The query and the fragment of a result: lemmas\<close>

lemma appendToQuery_text:
  "appendToQuery u p pe =
     protocol u @ ''//'' @ host u @ pathname u @
     queryText (buildQueryString (writeParams p pe (searchParams u))) @
     hash (removeFromFragment u p)"
  using appendToQuery_shape [of u p pe] by (auto simp: queryText_def Let_def)

lemma hash_removeFromFragment_text:
  "hash (removeFromFragment u p) =
     (if str_includes (drop 1 (hash u)) (CHR ''='')
      then fragmentText (usp_toString (withoutKeys p (new_URLSearchParams (drop 1 (hash u)))))
      else hash u)"
  by (simp add: removeFromFragment_cases hash_set_hash_toString fragmentText_def withoutKeys_def
        usp_toString_empty)

lemma buildQueryString_no_hash: "CHR ''#'' \<notin> set (buildQueryString l)"
  using buildQueryString_plain [of "CHR ''#''" l] by (auto simp: fragmentPlain_def)

lemma usp_toString_no_hash: "CHR ''#'' \<notin> set (usp_toString l)"
  using usp_toString_plain [of "CHR ''#''" l] by (auto simp: fragmentPlain_def)

lemma hash_shape: "hash u = [] \<or> (\<exists>t. hash u = CHR ''#'' # t)"
  by (auto simp: hash_def split: option.splits)

lemma fragmentOf_append:
  assumes "CHR ''#'' \<notin> set a" and "f = [] \<or> (\<exists>t. f = CHR ''#'' # t)"
  shows "fragmentOf (a @ f) = f"
proof -
  have "dropWhile (\<lambda>c. c \<noteq> CHR ''#'') (a @ f) = dropWhile (\<lambda>c. c \<noteq> CHR ''#'') f"
    using assms(1) by (intro dropWhile_append2) auto
  also have "\<dots> = f" using assms(2) by auto
  finally show ?thesis by (simp add: fragmentOf_def)
qed

lemma queryOf_append:
  assumes "CHR ''#'' \<notin> set a" and "CHR ''?'' \<notin> set a" and "CHR ''#'' \<notin> set q"
    and "q = [] \<or> (\<exists>t. q = CHR ''?'' # t)" and "f = [] \<or> (\<exists>t. f = CHR ''#'' # t)"
  shows "queryOf (a @ q @ f) = q"
proof -
  have "takeWhile (\<lambda>c. c \<noteq> CHR ''#'') ((a @ q) @ f) = (a @ q) @ takeWhile (\<lambda>c. c \<noteq> CHR ''#'') f"
    using assms(1,3) by (intro takeWhile_append2) auto
  also have "takeWhile (\<lambda>c. c \<noteq> CHR ''#'') f = []" using assms(5) by auto
  finally have 1: "takeWhile (\<lambda>c. c \<noteq> CHR ''#'') (a @ q @ f) = a @ q" by simp
  have "dropWhile (\<lambda>c. c \<noteq> CHR ''?'') (a @ q) = dropWhile (\<lambda>c. c \<noteq> CHR ''?'') q"
    using assms(2) by (intro dropWhile_append2) auto
  also have "\<dots> = q" using assms(4) by auto
  finally show ?thesis by (simp add: queryOf_def 1)
qed

lemma delimitersEscaped_base:
  assumes "delimitersEscaped u"
  shows "CHR ''#'' \<notin> set (protocol u @ ''//'' @ host u @ pathname u)"
    and "CHR ''?'' \<notin> set (protocol u @ ''//'' @ host u @ pathname u)"
  using assms by (auto simp: delimitersEscaped_def protocol_def pathname_def list_all_iff)

lemma queryText_no_hash: "CHR ''#'' \<notin> set (queryText (buildQueryString l))"
  using buildQueryString_no_hash [of l] by (simp add: queryText_def)

lemma fragmentOf_appendToQuery:
  assumes "delimitersEscaped u"
  shows "fragmentOf (appendToQuery u p pe) = hash (removeFromFragment u p)"
proof -
  let ?a = "(protocol u @ ''//'' @ host u @ pathname u) @
            queryText (buildQueryString (writeParams p pe (searchParams u)))"
  have "CHR ''#'' \<notin> set ?a"
    using delimitersEscaped_base(1) [OF assms] queryText_no_hash by simp
  then have "fragmentOf (?a @ hash (removeFromFragment u p)) = hash (removeFromFragment u p)"
    using hash_shape by (rule fragmentOf_append)
  then show ?thesis by (simp add: appendToQuery_text)
qed

lemma heldInFragment_appendToQuery:
  assumes "delimitersEscaped u"
  shows "heldInFragment (appendToQuery u p pe) k = fragmentHasKey (removeFromFragment u p) k"
  by (simp add: heldInFragment_def fragmentHasKey_def fragmentOf_appendToQuery [OF assms])

lemma URL_toString_parts:
  "URL_toString u =
     beforeQuery u @
     (case query u of None \<Rightarrow> [] | Some q \<Rightarrow> ''?'' @ q) @
     (case fragment u of None \<Rightarrow> [] | Some f \<Rightarrow> ''#'' @ f)"
  by (simp add: URL_toString_def beforeQuery_def)

lemma beforeQuery_chars:
  "set (beforeQuery u) \<subseteq>
     set (scheme u @ username u @ password u @ host u @ path u) \<union> set '':/@.''"
proof (cases "hostport u")
  case None
  then show ?thesis by (simp add: beforeQuery_def host_def) blast
next
  case (Some h)
  then show ?thesis by (simp add: beforeQuery_def host_def) blast
qed

lemma delimitersEscaped_prefix:
  assumes "delimitersEscaped u"
  shows "CHR ''#'' \<notin> set (beforeQuery u)" and "CHR ''?'' \<notin> set (beforeQuery u)"
proof -
  have a: "CHR ''#'' \<notin> set (scheme u @ username u @ password u @ host u @ path u)"
    and b: "CHR ''?'' \<notin> set (scheme u @ username u @ password u @ host u @ path u)"
    using assms unfolding delimitersEscaped_def list_all_iff by blast+
  have c: "CHR ''#'' \<notin> set '':/@.''" "CHR ''?'' \<notin> set '':/@.''" by simp_all
  show "CHR ''#'' \<notin> set (beforeQuery u)" using beforeQuery_chars [of u] a c(1) by blast
  show "CHR ''?'' \<notin> set (beforeQuery u)" using beforeQuery_chars [of u] b c(2) by blast
qed

lemma query_text_no_hash:
  assumes "delimitersEscaped u"
  shows "CHR ''#'' \<notin> set (case query u of None \<Rightarrow> [] | Some q \<Rightarrow> ''?'' @ q)"
proof (cases "query u")
  case None
  then show ?thesis by simp
next
  case (Some q)
  then have "CHR ''#'' \<notin> set q"
    using assms unfolding delimitersEscaped_def list_all_iff by auto
  then show ?thesis using Some by simp
qed

lemma queryOf_URL_toString:
  assumes "delimitersEscaped u"
  shows "queryOf (URL_toString u) = (case query u of None \<Rightarrow> [] | Some q \<Rightarrow> ''?'' @ q)"
proof -
  have 1: "(case query u of None \<Rightarrow> [] | Some q \<Rightarrow> ''?'' @ q) = [] \<or>
           (\<exists>t. (case query u of None \<Rightarrow> [] | Some q \<Rightarrow> ''?'' @ q) = CHR ''?'' # t)"
    by (cases "query u") simp_all
  have 2: "(case fragment u of None \<Rightarrow> [] | Some f \<Rightarrow> ''#'' @ f) = [] \<or>
           (\<exists>t. (case fragment u of None \<Rightarrow> [] | Some f \<Rightarrow> ''#'' @ f) = CHR ''#'' # t)"
    by (cases "fragment u") simp_all
  show ?thesis
    unfolding URL_toString_parts
    by (rule queryOf_append [OF delimitersEscaped_prefix [OF assms] query_text_no_hash [OF assms] 1 2])
qed


lemma fragmentResult_fields:
  "scheme (fragmentResult u p pe) = scheme u" "username (fragmentResult u p pe) = username u"
  "password (fragmentResult u p pe) = password u" "hostport (fragmentResult u p pe) = hostport u"
  "path (fragmentResult u p pe) = path u"
  by (simp_all add: fragmentResult_def Let_def removeFromQuery_cases update_query_def)

lemma query_fragmentResult:
  "p \<noteq> [] \<Longrightarrow>
   query (fragmentResult u p pe) =
     (let q = usp_toString (withoutKeys p (searchParams u)) in if q = [] then None else Some q)"
  by (simp add: fragmentResult_def Let_def removeFromQuery_cases update_query_def withoutKeys_def)

lemma delimitersEscaped_fragmentResult:
  assumes "delimitersEscaped u" and "p \<noteq> []"
  shows "delimitersEscaped (fragmentResult u p pe)"
proof -
  have h: "host (fragmentResult u p pe) = host u"
    by (simp add: host_def fragmentResult_fields)
  have q: "list_all (\<lambda>c. c \<noteq> CHR ''#'')
             (case query (fragmentResult u p pe) of None \<Rightarrow> [] | Some q \<Rightarrow> q)"
    using usp_toString_no_hash [of "withoutKeys p (searchParams u)"]
    by (auto simp: query_fragmentResult [OF assms(2)] Let_def list_all_iff)
  show ?thesis
    using assms(1) q unfolding delimitersEscaped_def fragmentResult_fields h by simp
qed

lemma queryOf_appendToFragment:
  assumes "delimitersEscaped u" and "p \<noteq> []"
  shows "queryOf (appendToFragment u p pe) =
           queryText (usp_toString (withoutKeys p (searchParams u)))"
  using queryOf_URL_toString [OF delimitersEscaped_fragmentResult [OF assms], of pe]
  by (simp add: appendToFragment_def query_fragmentResult [OF assms(2)] Let_def queryText_def)

lemma heldInQuery_appendToFragment:
  assumes "delimitersEscaped u" and "p \<noteq> []"
  shows "heldInQuery (appendToFragment u p pe) k = queryHasKey (fragmentResult u p pe) k"
proof -
  have "drop 1 (queryOf (URL_toString (fragmentResult u p pe))) =
          (case query (fragmentResult u p pe) of None \<Rightarrow> [] | Some q \<Rightarrow> q)"
    using queryOf_URL_toString [OF delimitersEscaped_fragmentResult [OF assms], of pe]
    by (simp split: option.splits)
  then show ?thesis
    by (simp add: heldInQuery_def queryHasKey_def appendToFragment_def searchParams_def)
qed


lemma withoutKeys_has: "k \<in> fst ` set p \<Longrightarrow> \<not> usp_has k (withoutKeys p l)"
  by (force simp: withoutKeys_def usp_has_iff)


lemma fragmentText_read:
  "new_URLSearchParams (drop 1 (fragmentText (usp_toString l))) = l"
proof (cases "l = []")
  case True
  then show ?thesis
    by (simp add: fragmentText_def usp_toString_def new_URLSearchParams_def urlencoded_parse_def
          startsWith_def)
next
  case False
  then show ?thesis
    using usp_toString_no_question [of l]
    by (simp add: fragmentText_def usp_toString_empty new_URLSearchParams_def
          urlencoded_parse_toString)
qed

section \<open>C3: the cross-location conflict rule\<close>

text \<open>
  C3: for a URL that parses and a parameter object with a valid UTM entry. With query
  placement the result is the protocol, the host and the path, then the written query,
  then the fragment of the URL object after the fragment block. That fragment is the
  serialization of the pairs of the old fragment without the injected keys (no fragment at
  all when no pair is left) when the old fragment contains \<open>=\<close>, and the old fragment as it
  is otherwise; read back, it holds none of the injected keys. With fragment placement the
  result is the serialization of a URL object whose query is the serialization of the old
  pairs without the injected keys. For a URL object that keeps the delimiters out of its
  components, the fragment found in the returned string (query placement) and the query
  found in the returned string (fragment placement) are these, so no injected key is held
  by the location of the result that was not written.
\<close>

theorem cross_location_conflict:
  assumes "parse url = Some u" and "hasValidUtmEntries p"
  shows "(orDefault (toFragment opts) False = False \<longrightarrow>
            appendUtmParameters parse url p opts =
              protocol u @ ''//'' @ host u @ pathname u @
              queryText (buildQueryString
                           (writeParams (toSnakeCaseParams p)
                              (orDefault (preserveExisting opts) False) (searchParams u))) @
              hash (removeFromFragment u (toSnakeCaseParams p)) \<and>
            hash (removeFromFragment u (toSnakeCaseParams p)) =
              (if str_includes (drop 1 (hash u)) (CHR ''='')
               then fragmentText (usp_toString (withoutKeys (toSnakeCaseParams p)
                                                  (new_URLSearchParams (drop 1 (hash u)))))
               else hash u) \<and>
            (str_includes (drop 1 (hash u)) (CHR ''='') \<longrightarrow>
               (\<forall>k \<in> fst ` set (toSnakeCaseParams p).
                  \<not> usp_has k (new_URLSearchParams
                                  (drop 1 (hash (removeFromFragment u (toSnakeCaseParams p))))))) \<and>
            (\<forall>k \<in> fst ` set (toSnakeCaseParams p).
               \<not> fragmentHasKey (removeFromFragment u (toSnakeCaseParams p)) k) \<and>
            (delimitersEscaped u \<longrightarrow>
               fragmentOf (appendUtmParameters parse url p opts) =
                 hash (removeFromFragment u (toSnakeCaseParams p)) \<and>
               (\<forall>k \<in> fst ` set (toSnakeCaseParams p).
                  \<not> heldInFragment (appendUtmParameters parse url p opts) k))) \<and>
         (orDefault (toFragment opts) False = True \<longrightarrow>
            appendUtmParameters parse url p opts =
              URL_toString (fragmentResult u (toSnakeCaseParams p)
                              (orDefault (preserveExisting opts) False)) \<and>
            query (fragmentResult u (toSnakeCaseParams p) (orDefault (preserveExisting opts) False)) =
              (let q = usp_toString (withoutKeys (toSnakeCaseParams p) (searchParams u))
               in if q = [] then None else Some q) \<and>
            (\<forall>k \<in> fst ` set (toSnakeCaseParams p).
               \<not> queryHasKey (fragmentResult u (toSnakeCaseParams p)
                                 (orDefault (preserveExisting opts) False)) k) \<and>
            (delimitersEscaped u \<longrightarrow>
               queryOf (appendUtmParameters parse url p opts) =
                 queryText (usp_toString (withoutKeys (toSnakeCaseParams p) (searchParams u))) \<and>
               (\<forall>k \<in> fst ` set (toSnakeCaseParams p).
                  \<not> heldInQuery (appendUtmParameters parse url p opts) k)))"
proof -
  let ?s = "toSnakeCaseParams p"
  let ?pe = "orDefault (preserveExisting opts) False"
  let ?u1 = "removeFromFragment u ?s"
  let ?r = "appendUtmParameters parse url p opts"
  have ne: "?s \<noteq> []" by (rule hasValid_nonempty [OF assms(2)])
  have rq: "?r = appendToQuery u ?s ?pe" if "orDefault (toFragment opts) False = False"
    using that assms by (simp add: appendUtmParameters_def)
  have rf: "?r = appendToFragment u ?s ?pe" if "orDefault (toFragment opts) False = True"
    using that assms by (simp add: appendUtmParameters_def)
  have a: "\<not> usp_has k (new_URLSearchParams (drop 1 (hash ?u1)))"
    if "str_includes (drop 1 (hash u)) (CHR ''='')" "k \<in> fst ` set ?s" for k
  proof -
    have "hash ?u1 = fragmentText (usp_toString (withoutKeys ?s
                                     (new_URLSearchParams (drop 1 (hash u)))))"
      using that(1) by (simp only: hash_removeFromFragment_text if_True)
    then have "new_URLSearchParams (drop 1 (hash ?u1)) =
                 withoutKeys ?s (new_URLSearchParams (drop 1 (hash u)))"
      by (simp only: fragmentText_read)
    then show ?thesis using withoutKeys_has [OF that(2)] by simp
  qed
  have d: "\<not> fragmentHasKey ?u1 k" if k: "k \<in> fst ` set ?s" for k
  proof (cases "str_includes (drop 1 (hash u)) (CHR ''='')")
    case True
    then show ?thesis using a [OF True k] by (simp add: fragmentHasKey_def)
  next
    case False
    then have "\<not> str_includes (hash u) (CHR ''='')"
      by (auto simp: str_includes_def hash_def split: option.splits if_splits)
    then show ?thesis using False by (simp add: fragmentHasKey_def hash_removeFromFragment_text)
  qed
  have q1: "?r = protocol u @ ''//'' @ host u @ pathname u @
              queryText (buildQueryString (writeParams ?s ?pe (searchParams u))) @ hash ?u1"
    if "orDefault (toFragment opts) False = False"
    unfolding rq [OF that] by (rule appendToQuery_text)
  have q2: "fragmentOf ?r = hash ?u1"
    if "orDefault (toFragment opts) False = False" "delimitersEscaped u"
    unfolding rq [OF that(1)] by (rule fragmentOf_appendToQuery [OF that(2)])
  have q3: "\<not> heldInFragment ?r k"
    if "orDefault (toFragment opts) False = False" "delimitersEscaped u" "k \<in> fst ` set ?s" for k
    unfolding rq [OF that(1)] heldInFragment_appendToQuery [OF that(2)] by (rule d [OF that(3)])
  have f1: "?r = URL_toString (fragmentResult u ?s ?pe)"
    if "orDefault (toFragment opts) False = True"
    unfolding rf [OF that] by (simp add: appendToFragment_def)
  have g: "\<not> queryHasKey (fragmentResult u ?s ?pe) k" if "k \<in> fst ` set ?s" for k
    using that ne
    by (simp add: queryHasKey_def searchParams_fragmentResult usp_has_iff) force
  have f2: "queryOf ?r = queryText (usp_toString (withoutKeys ?s (searchParams u)))"
    if "orDefault (toFragment opts) False = True" "delimitersEscaped u"
    unfolding rf [OF that(1)] by (rule queryOf_appendToFragment [OF that(2) ne])
  have f3: "\<not> heldInQuery ?r k"
    if "orDefault (toFragment opts) False = True" "delimitersEscaped u" "k \<in> fst ` set ?s" for k
    unfolding rf [OF that(1)] heldInQuery_appendToFragment [OF that(2) ne] by (rule g [OF that(3)])
  note h = hash_removeFromFragment_text [of u ?s]
  note qf = query_fragmentResult [OF ne, of u ?pe]
  show ?thesis
  proof (intro conjI impI ballI)
    assume t: "orDefault (toFragment opts) False = False"
    show "?r = protocol u @ ''//'' @ host u @ pathname u @
              queryText (buildQueryString (writeParams ?s ?pe (searchParams u))) @ hash ?u1"
      by (rule q1 [OF t])
    show "hash ?u1 = (if str_includes (drop 1 (hash u)) (CHR ''='')
               then fragmentText (usp_toString (withoutKeys ?s
                                                  (new_URLSearchParams (drop 1 (hash u)))))
               else hash u)" by (rule h)
    show "\<not> usp_has k (new_URLSearchParams (drop 1 (hash ?u1)))"
      if "str_includes (drop 1 (hash u)) (CHR ''='')" "k \<in> fst ` set ?s" for k
      by (rule a [OF that])
    show "\<not> fragmentHasKey ?u1 k" if "k \<in> fst ` set ?s" for k by (rule d [OF that])
    show "fragmentOf ?r = hash ?u1" if "delimitersEscaped u" by (rule q2 [OF t that])
    show "\<not> heldInFragment ?r k" if "delimitersEscaped u" "k \<in> fst ` set ?s" for k
      by (rule q3 [OF t that])
  next
    assume t: "orDefault (toFragment opts) False = True"
    show "?r = URL_toString (fragmentResult u ?s ?pe)" by (rule f1 [OF t])
    show "query (fragmentResult u ?s ?pe) =
              (let q = usp_toString (withoutKeys ?s (searchParams u))
               in if q = [] then None else Some q)" by (rule qf)
    show "\<not> queryHasKey (fragmentResult u ?s ?pe) k" if "k \<in> fst ` set ?s" for k
      by (rule g [OF that])
    show "queryOf ?r = queryText (usp_toString (withoutKeys ?s (searchParams u)))"
      if "delimitersEscaped u" by (rule f2 [OF t that])
    show "\<not> heldInQuery ?r k" if "delimitersEscaped u" "k \<in> fst ` set ?s" for k
      by (rule f3 [OF t that])
  qed
qed

theorem cross_location_conflict_witness:
  "parse_http_url ''https://example.com/#ref=abc&utm_source=old'' =
     Some \<lparr>scheme = ''https'', username = [], password = [], hostport = Some ''example.com'',
           path = ''/'', query = None, fragment = Some ''ref=abc&utm_source=old''\<rparr> \<and>
   parse_http_url ''https://example.com/#utm_source=old'' =
     Some \<lparr>scheme = ''https'', username = [], password = [], hostport = Some ''example.com'',
           path = ''/'', query = None, fragment = Some ''utm_source=old''\<rparr> \<and>
   parse_http_url ''https://example.com/?utm_source=query&ref=abc'' =
     Some \<lparr>scheme = ''https'', username = [], password = [], hostport = Some ''example.com'',
           path = ''/'', query = Some ''utm_source=query&ref=abc'', fragment = None\<rparr> \<and>
   hasValidUtmEntries [(''utm_source'', Some ''new'')] \<and>
   delimitersEscaped
     \<lparr>scheme = ''https'', username = [], password = [], hostport = Some ''example.com'',
      path = ''/'', query = None, fragment = Some ''ref=abc&utm_source=old''\<rparr> \<and>
   delimitersEscaped
     \<lparr>scheme = ''https'', username = [], password = [], hostport = Some ''example.com'',
      path = ''/'', query = None, fragment = Some ''utm_source=old''\<rparr> \<and>
   delimitersEscaped
     \<lparr>scheme = ''https'', username = [], password = [], hostport = Some ''example.com'',
      path = ''/'', query = Some ''utm_source=query&ref=abc'', fragment = None\<rparr> \<and>
   appendUtmParameters parse_http_url ''https://example.com/#ref=abc&utm_source=old''
     [(''utm_source'', Some ''new'')] \<lparr>toFragment = None, preserveExisting = None\<rparr> =
     ''https://example.com/?utm_source=new#ref=abc'' \<and>
   fragmentOf ''https://example.com/?utm_source=new#ref=abc'' = ''#ref=abc'' \<and>
   \<not> heldInFragment ''https://example.com/?utm_source=new#ref=abc'' ''utm_source'' \<and>
   appendUtmParameters parse_http_url ''https://example.com/#utm_source=old''
     [(''utm_source'', Some ''new'')] \<lparr>toFragment = None, preserveExisting = None\<rparr> =
     ''https://example.com/?utm_source=new'' \<and>
   fragmentOf ''https://example.com/?utm_source=new'' = [] \<and>
   \<not> heldInFragment ''https://example.com/?utm_source=new'' ''utm_source'' \<and>
   appendUtmParameters parse_http_url ''https://example.com/?utm_source=query&ref=abc''
     [(''utm_source'', Some ''new'')] \<lparr>toFragment = Some True, preserveExisting = None\<rparr> =
     ''https://example.com/?ref=abc#utm_source=new'' \<and>
   queryOf ''https://example.com/?ref=abc#utm_source=new'' = ''?ref=abc'' \<and>
   \<not> heldInQuery ''https://example.com/?ref=abc#utm_source=new'' ''utm_source''"
proof -
  let ?U1 = "\<lparr>scheme = ''https'', username = [], password = [], hostport = Some ''example.com'',
           path = ''/'', query = None, fragment = Some ''ref=abc&utm_source=old''\<rparr>"
  let ?U2 = "\<lparr>scheme = ''https'', username = [], password = [], hostport = Some ''example.com'',
           path = ''/'', query = None, fragment = Some ''utm_source=old''\<rparr>"
  let ?U3 = "\<lparr>scheme = ''https'', username = [], password = [], hostport = Some ''example.com'',
           path = ''/'', query = Some ''utm_source=query&ref=abc'', fragment = None\<rparr>"
  let ?P = "[(''utm_source'', Some ''new'')]"
  let ?Oq = "\<lparr>toFragment = None, preserveExisting = None\<rparr>"
  let ?Of = "\<lparr>toFragment = Some True, preserveExisting = None\<rparr>"
  have p1: "parse_http_url ''https://example.com/#ref=abc&utm_source=old'' = Some ?U1"
    by code_simp
  have p2: "parse_http_url ''https://example.com/#utm_source=old'' = Some ?U2"
    by code_simp
  have p3: "parse_http_url ''https://example.com/?utm_source=query&ref=abc'' = Some ?U3"
    by code_simp
  have v: "hasValidUtmEntries ?P"
    by code_simp
  have d1: "delimitersEscaped ?U1" and d2: "delimitersEscaped ?U2" and d3: "delimitersEscaped ?U3"
    by code_simp+
  have s: "toSnakeCaseParams ?P = ?P"
    by code_simp
  have k: "''utm_source'' \<in> fst ` set (toSnakeCaseParams ?P)"
    by (simp add: s)
  have oq: "orDefault (toFragment ?Oq) False = False"
    and of: "orDefault (toFragment ?Of) False = True"
    by (simp_all add: orDefault_def)
  have r1: "appendUtmParameters parse_http_url ''https://example.com/#ref=abc&utm_source=old''
              ?P ?Oq = ''https://example.com/?utm_source=new#ref=abc''"
    by code_simp
  have r2: "appendUtmParameters parse_http_url ''https://example.com/#utm_source=old''
              ?P ?Oq = ''https://example.com/?utm_source=new''"
    by code_simp
  have r3: "appendUtmParameters parse_http_url ''https://example.com/?utm_source=query&ref=abc''
              ?P ?Of = ''https://example.com/?ref=abc#utm_source=new''"
    by code_simp
  have e1: "(if str_includes (drop 1 (hash ?U1)) (CHR ''='')
             then fragmentText (usp_toString (withoutKeys (toSnakeCaseParams ?P)
                                                (new_URLSearchParams (drop 1 (hash ?U1)))))
             else hash ?U1) = ''#ref=abc''"
    by code_simp
  have e2: "(if str_includes (drop 1 (hash ?U2)) (CHR ''='')
             then fragmentText (usp_toString (withoutKeys (toSnakeCaseParams ?P)
                                                (new_URLSearchParams (drop 1 (hash ?U2)))))
             else hash ?U2) = []"
    by code_simp
  have e3: "queryText (usp_toString (withoutKeys (toSnakeCaseParams ?P) (searchParams ?U3))) =
              ''?ref=abc''"
    by code_simp
  note t1 = cross_location_conflict
      [where parse = parse_http_url and url = "''https://example.com/#ref=abc&utm_source=old''"
         and opts = ?Oq, OF p1 v]
  from t1 oq d1
  have a1: "fragmentOf (appendUtmParameters parse_http_url
                          ''https://example.com/#ref=abc&utm_source=old'' ?P ?Oq) =
              hash (removeFromFragment ?U1 (toSnakeCaseParams ?P))"
    by blast
  from t1 oq
  have b1: "hash (removeFromFragment ?U1 (toSnakeCaseParams ?P)) =
              (if str_includes (drop 1 (hash ?U1)) (CHR ''='')
               then fragmentText (usp_toString (withoutKeys (toSnakeCaseParams ?P)
                                                  (new_URLSearchParams (drop 1 (hash ?U1)))))
               else hash ?U1)"
    by blast
  from t1 oq d1 k
  have c1: "\<not> heldInFragment (appendUtmParameters parse_http_url
                          ''https://example.com/#ref=abc&utm_source=old'' ?P ?Oq) ''utm_source''"
    by blast
  have f1: "fragmentOf ''https://example.com/?utm_source=new#ref=abc'' = ''#ref=abc''"
    using a1 unfolding b1 e1 r1 .
  have h1: "\<not> heldInFragment ''https://example.com/?utm_source=new#ref=abc'' ''utm_source''"
    using c1 unfolding r1 .
  note t2 = cross_location_conflict
      [where parse = parse_http_url and url = "''https://example.com/#utm_source=old''"
         and opts = ?Oq, OF p2 v]
  from t2 oq d2
  have a2: "fragmentOf (appendUtmParameters parse_http_url
                          ''https://example.com/#utm_source=old'' ?P ?Oq) =
              hash (removeFromFragment ?U2 (toSnakeCaseParams ?P))"
    by blast
  from t2 oq
  have b2: "hash (removeFromFragment ?U2 (toSnakeCaseParams ?P)) =
              (if str_includes (drop 1 (hash ?U2)) (CHR ''='')
               then fragmentText (usp_toString (withoutKeys (toSnakeCaseParams ?P)
                                                  (new_URLSearchParams (drop 1 (hash ?U2)))))
               else hash ?U2)"
    by blast
  from t2 oq d2 k
  have c2: "\<not> heldInFragment (appendUtmParameters parse_http_url
                          ''https://example.com/#utm_source=old'' ?P ?Oq) ''utm_source''"
    by blast
  have f2: "fragmentOf ''https://example.com/?utm_source=new'' = []"
    using a2 unfolding b2 e2 r2 .
  have h2: "\<not> heldInFragment ''https://example.com/?utm_source=new'' ''utm_source''"
    using c2 unfolding r2 .
  note t3 = cross_location_conflict
      [where parse = parse_http_url and url = "''https://example.com/?utm_source=query&ref=abc''"
         and opts = ?Of, OF p3 v]
  from t3 of d3
  have a3: "queryOf (appendUtmParameters parse_http_url
                       ''https://example.com/?utm_source=query&ref=abc'' ?P ?Of) =
              queryText (usp_toString (withoutKeys (toSnakeCaseParams ?P) (searchParams ?U3)))"
    by blast
  from t3 of d3 k
  have c3: "\<not> heldInQuery (appendUtmParameters parse_http_url
                       ''https://example.com/?utm_source=query&ref=abc'' ?P ?Of) ''utm_source''"
    by blast
  have f3: "queryOf ''https://example.com/?ref=abc#utm_source=new'' = ''?ref=abc''"
    using a3 unfolding e3 r3 .
  have h3: "\<not> heldInQuery ''https://example.com/?ref=abc#utm_source=new'' ''utm_source''"
    using c3 unfolding r3 .
  show ?thesis
    using p1 p2 p3 v d1 d2 d3 r1 f1 h1 r2 f2 h2 r3 f3 h3 by blast
qed

section \<open>C8: the frame condition of injection\<close>




section \<open>C5: empty values are written as bare keys\<close>

text \<open>
  C5, as stated: every parameter object that has a UTM key with the empty string as value
  shows that key bare in the target location. A parameter object whose only entry is such
  a key has no valid entry, and both placements return the URL unchanged.
\<close>

theorem bare_key_counterexample:
  "isSnakeCaseUtmKey ''utm_source'' \<and>
   parse_http_url ''https://example.com/'' =
     Some \<lparr>scheme = ''https'', username = [], password = [], hostport = Some ''example.com'',
           path = ''/'', query = None, fragment = None\<rparr> \<and>
   appendUtmParameters parse_http_url ''https://example.com/'' [(''utm_source'', Some [])]
     \<lparr>toFragment = None, preserveExisting = None\<rparr> = ''https://example.com/'' \<and>
   appendUtmParameters parse_http_url ''https://example.com/'' [(''utm_source'', Some [])]
     \<lparr>toFragment = Some True, preserveExisting = None\<rparr> = ''https://example.com/''"
  by code_simp

text \<open>
  C5, amended: for a URL that parses and a parameter object with at least one valid UTM
  entry (a UTM key with a non-empty value), every underscore key whose value in the
  converted object is the empty string is shown bare, without \<open>=\<close>, in the target location
  of the result, in query and in fragment placement, provided that \<open>preserveExisting\<close> is
  off or the target location does not hold the key yet.
\<close>

theorem bare_key:
  assumes "parse url = Some u" and "hasValidUtmEntries p"
    and "(k, Some []) \<in> set (toSnakeCaseParams p)" and "isSnakeCaseUtmKey k"
  shows "(orDefault (toFragment opts) False = False \<and>
          (orDefault (preserveExisting opts) False = False \<or> \<not> usp_has k (searchParams u)) \<longrightarrow>
            (\<exists>qs. appendUtmParameters parse url p opts =
                     protocol u @ ''//'' @ host u @ pathname u @ ''?'' @ qs @
                     hash (removeFromFragment u (toSnakeCaseParams p)) \<and>
                   showsBareKey qs k)) \<and>
         (orDefault (toFragment opts) False = True \<and>
          (orDefault (preserveExisting opts) False = False \<or>
             \<not> usp_has k (new_URLSearchParams (drop 1 (hash u)))) \<longrightarrow>
            (\<exists>fs. appendUtmParameters parse url p opts =
                     URL_toString (fragmentResult u (toSnakeCaseParams p)
                                     (orDefault (preserveExisting opts) False)) \<and>
                   fragment (fragmentResult u (toSnakeCaseParams p)
                               (orDefault (preserveExisting opts) False)) = Some fs \<and>
                   showsBareKey fs k))"
proof -
  let ?s = "toSnakeCaseParams p"
  let ?pe = "orDefault (preserveExisting opts) False"
  have wf: "wellFormed ?s" by (simp add: toSnakeCaseParams_def convertParams_wellFormed)
  have kne: "k \<noteq> []" using assms(4) by (rule startsWith_utm_nonempty)
  have written: "filter (\<lambda>(a, b). a = k) (writeParams ?s ?pe sp) = [(k, [])]"
    if "?pe = False \<or> \<not> usp_has k sp" for sp
    using that by (intro writeParams_written_key [OF wf assms(3)]) auto
  have shown: "showsBareKey (buildQueryString (writeParams ?s ?pe sp)) k"
    and nonempty: "buildQueryString (writeParams ?s ?pe sp) \<noteq> []"
    if "?pe = False \<or> \<not> usp_has k sp" for sp
  proof -
    show "showsBareKey (buildQueryString (writeParams ?s ?pe sp)) k"
      by (rule showsBareKey_written [OF written [OF that]])
    have "(k, []) \<in> set (filter (\<lambda>(a, b). a = k) (writeParams ?s ?pe sp))"
      by (simp only: written [OF that]) simp
    then have "(k, []) \<in> set (writeParams ?s ?pe sp)" by simp
    then show "buildQueryString (writeParams ?s ?pe sp) \<noteq> []"
      using kne by (rule buildQueryString_nonempty)
  qed
  have 1: "\<exists>qs. appendUtmParameters parse url p opts =
                     protocol u @ ''//'' @ host u @ pathname u @ ''?'' @ qs @
                     hash (removeFromFragment u ?s) \<and> showsBareKey qs k"
    if "orDefault (toFragment opts) False = False" "?pe = False \<or> \<not> usp_has k (searchParams u)"
  proof -
    have "appendUtmParameters parse url p opts = appendToQuery u ?s ?pe"
      using that(1) assms by (simp add: appendUtmParameters_def)
    then show ?thesis
      using appendToQuery_shape [of u ?s ?pe] shown [OF that(2)] nonempty [OF that(2)]
      by (auto simp: Let_def)
  qed
  have 2: "\<exists>fs. appendUtmParameters parse url p opts = URL_toString (fragmentResult u ?s ?pe) \<and>
                 fragment (fragmentResult u ?s ?pe) = Some fs \<and> showsBareKey fs k"
    if "orDefault (toFragment opts) False = True"
       "?pe = False \<or> \<not> usp_has k (new_URLSearchParams (drop 1 (hash u)))"
  proof -
    have "appendUtmParameters parse url p opts = URL_toString (fragmentResult u ?s ?pe)"
      using that(1) assms by (simp add: appendUtmParameters_def appendToFragment_def)
    then show ?thesis
      using fragmentResult_written [OF nonempty [OF that(2)]] shown [OF that(2)]
      by simp
  qed
  show ?thesis using 1 2 by blast
qed

theorem bare_key_witness:
  "parse_http_url ''https://example.com/'' = Some \<lparr>scheme = ''https'', username = [], password = [], hostport = Some ''example.com'',
           path = ''/'', query = None, fragment = None\<rparr> \<and>
   hasValidUtmEntries [(''utm_source'', Some ''test''), (''utm_campaign'', Some [])] \<and>
   (''utm_campaign'', Some []) \<in> set (toSnakeCaseParams [(''utm_source'', Some ''test''), (''utm_campaign'', Some [])]) \<and>
   isSnakeCaseUtmKey ''utm_campaign'' \<and>
   appendUtmParameters parse_http_url ''https://example.com/'' [(''utm_source'', Some ''test''), (''utm_campaign'', Some [])] \<lparr>toFragment = None, preserveExisting = None\<rparr> =
     ''https://example.com/?utm_source=test&utm_campaign'' \<and>
   showsBareKey ''utm_source=test&utm_campaign'' ''utm_campaign'' \<and>
   appendUtmParameters parse_http_url ''https://example.com/'' [(''utm_source'', Some ''test''), (''utm_campaign'', Some [])] \<lparr>toFragment = Some True, preserveExisting = None\<rparr> =
     ''https://example.com/#utm_source=test&utm_campaign'' \<and>
   fragment (fragmentResult \<lparr>scheme = ''https'', username = [], password = [], hostport = Some ''example.com'',
           path = ''/'', query = None, fragment = None\<rparr> (toSnakeCaseParams [(''utm_source'', Some ''test''), (''utm_campaign'', Some [])]) False) =
     Some ''utm_source=test&utm_campaign''"
proof -
  let ?u = "\<lparr>scheme = ''https'', username = [], password = [], hostport = Some ''example.com'',
           path = ''/'', query = None, fragment = None\<rparr>"
  let ?p = "[(''utm_source'', Some ''test''), (''utm_campaign'', Some [])]"
  have p: "parse_http_url ''https://example.com/'' = Some ?u"
    by code_simp
  have v: "hasValidUtmEntries ?p"
    by code_simp
  have s: "toSnakeCaseParams ?p = ?p"
    by code_simp
  have k: "(''utm_campaign'', Some []) \<in> set (toSnakeCaseParams ?p)"
    by (simp add: s)
  have i: "isSnakeCaseUtmKey ''utm_campaign''"
    by code_simp
  have r: "appendUtmParameters parse_http_url ''https://example.com/'' ?p \<lparr>toFragment = None, preserveExisting = None\<rparr> =
     ''https://example.com/?utm_source=test&utm_campaign''"
    by code_simp
  have rf: "appendUtmParameters parse_http_url ''https://example.com/'' ?p \<lparr>toFragment = Some True, preserveExisting = None\<rparr> =
     ''https://example.com/#utm_source=test&utm_campaign''"
    by code_simp
  have h: "hash (removeFromFragment ?u ?p) = []"
    by code_simp
  have f: "fragment (fragmentResult ?u ?p False) = Some ''utm_source=test&utm_campaign''"
    by code_simp
  have b: "showsBareKey ''utm_source=test&utm_campaign'' ''utm_campaign''"
    using bare_key
      [where parse = parse_http_url and url = "''https://example.com/''"
         and opts = "\<lparr>toFragment = None, preserveExisting = None\<rparr>", OF p v k i]
    by (simp add: orDefault_def r s h protocol_def host_def pathname_def)
  have bf: "showsBareKey ''utm_source=test&utm_campaign'' ''utm_campaign''"
    using bare_key
      [where parse = parse_http_url and url = "''https://example.com/''"
         and opts = "\<lparr>toFragment = Some True, preserveExisting = None\<rparr>", OF p v k i]
    by (simp add: orDefault_def rf s f)
  show ?thesis using p v k i r rf b bf f by (simp add: s)
qed

section \<open>Injecting twice: lemmas\<close>

lemma appendToQuery_eq:
  "appendToQuery u p pe =
     protocol u @ ''//'' @ host u @ pathname u @
     (let s = buildQueryString (writeParams p pe (searchParams u)) in if s = [] then [] else ''?'' @ s) @
     hash (removeFromFragment u p)"
  using appendToQuery_shape [of u p pe] by auto

lemma appendToQuery_toString:
  "hostport u \<noteq> None \<Longrightarrow> appendToQuery u p pe = URL_toString (queryResult u p pe)"
  by (auto simp: appendToQuery_eq queryResult_def URL_toString_def Let_def protocol_def host_def
        pathname_def searchParams_def hash_def split: option.splits)

lemma hash_removeFromFragment:
  "hash (removeFromFragment a s) =
     (if str_includes (drop 1 (hash a)) (CHR ''='')
      then (let fp = filter (\<lambda>(k, v). k \<notin> fst ` set s) (new_URLSearchParams (drop 1 (hash a)))
            in if fp = [] then [] else ''#'' @ usp_toString fp)
      else hash a)"
  by (simp add: removeFromFragment_cases hash_set_hash_toString Let_def)

lemma appendToQuery_agree:
  "agreeForQuery a b \<Longrightarrow> appendToQuery a s pe = appendToQuery b s pe"
  by (simp add: appendToQuery_eq hash_removeFromFragment agreeForQuery_def)

lemma usp_toString_has_eq: "l \<noteq> [] \<Longrightarrow> CHR ''='' \<in> set (usp_toString l)"
proof (induction l rule: induct_list012)
  case 1
  then show ?case by simp
next
  case (2 x)
  then show ?case by (simp add: usp_toString_formPair formPair_def)
next
  case (3 x y zs)
  then show ?case by (simp add: usp_toString_formPair formPair_def)
qed

lemma new_URLSearchParams_toString: "new_URLSearchParams (usp_toString l) = l"
  using usp_toString_no_question [of l]
  by (simp add: new_URLSearchParams_def urlencoded_parse_toString)

lemma filter_keys_twice:
  "filter (\<lambda>(k, v). k \<notin> K) (filter (\<lambda>(k, v). k \<notin> K) l) = filter (\<lambda>(k, v). k \<notin> K) l"
  by (auto intro: filter_cong)

lemma fragment_block_idem:
  assumes "hash a = hash (removeFromFragment u s)"
  shows "hash (removeFromFragment a s) = hash (removeFromFragment u s)"
proof (cases "str_includes (drop 1 (hash u)) (CHR ''='')")
  case False
  then show ?thesis using assms by (simp add: hash_removeFromFragment)
next
  case True
  let ?fp = "filter (\<lambda>(k, v). k \<notin> fst ` set s) (new_URLSearchParams (drop 1 (hash u)))"
  show ?thesis
  proof (cases "?fp = []")
    case e: True
    then have "hash a = []" using assms True by (simp add: hash_removeFromFragment)
    then show ?thesis using e True
      by (simp add: hash_removeFromFragment [of a] hash_removeFromFragment [of u] str_includes_def)
  next
    case ne: False
    then have h: "hash a = ''#'' @ usp_toString ?fp"
      using assms True by (simp add: hash_removeFromFragment)
    have "str_includes (drop 1 (hash a)) (CHR ''='')"
      using usp_toString_has_eq [OF ne] by (simp add: h str_includes_def)
    then show ?thesis using ne True h
      by (simp add: hash_removeFromFragment [of a] hash_removeFromFragment [of u]
            new_URLSearchParams_toString filter_keys_twice)
  qed
qed

lemma searchParams_removeFromFragment: "searchParams (removeFromFragment u s) = searchParams u"
  by (simp add: searchParams_def)

lemma searchParams_queryResult:
  "searchParams (queryResult u s pe) =
     filter (\<lambda>p. p \<noteq> ([], [])) (writeParams s pe (searchParams u))"
proof -
  have "urlencoded_parse [] = []" by (simp add: urlencoded_parse_def)
  then show ?thesis
    using urlencoded_parse_buildQueryString [of "writeParams s pe (searchParams u)"]
    by (auto simp: queryResult_def Let_def searchParams_def)
qed

lemma hash_queryResult: "hash (queryResult u s pe) = hash (removeFromFragment u s)"
  by (simp add: queryResult_def Let_def hash_def)

lemma queryResult_fields:
  "protocol (queryResult u s pe) = protocol u" "host (queryResult u s pe) = host u"
  "pathname (queryResult u s pe) = pathname u"
  by (simp_all add: queryResult_def Let_def protocol_def host_def pathname_def)

lemma written_again:
  assumes "wellFormed s" and "([], []) \<notin> set l"
  shows "writeParams s False (filter (\<lambda>p. p \<noteq> ([], [])) (writeParams s False l)) = writeParams s False l"
proof -
  let ?K = "fst ` set s"
  let ?D = "map (\<lambda>(k, v). (k, the v)) s"
  have 1: "filter (\<lambda>p. p \<noteq> ([], [])) (filter (\<lambda>(k, v). k \<notin> ?K) l) = filter (\<lambda>(k, v). k \<notin> ?K) l"
    using assms(2) by (intro filter_True) auto
  have 2: "filter (\<lambda>(k, v). k \<notin> ?K) (filter (\<lambda>p. p \<noteq> ([], [])) ?D) = []"
    by (force simp: filter_empty_conv)
  have w1: "writeParams s False l = filter (\<lambda>(k, v). k \<notin> ?K) l @ ?D"
    by (rule writeParams_replace [OF assms(1)])
  have "filter (\<lambda>p. p \<noteq> ([], [])) (filter (\<lambda>(k, v). k \<notin> ?K) l @ ?D) =
        filter (\<lambda>(k, v). k \<notin> ?K) l @ filter (\<lambda>p. p \<noteq> ([], [])) ?D"
    by (simp only: filter_append 1)
  then have "writeParams s False (filter (\<lambda>p. p \<noteq> ([], [])) (writeParams s False l)) =
        writeParams s False (filter (\<lambda>(k, v). k \<notin> ?K) l @ filter (\<lambda>p. p \<noteq> ([], [])) ?D)"
    by (simp only: w1)
  also have "\<dots> = filter (\<lambda>(k, v). k \<notin> ?K)
                       (filter (\<lambda>(k, v). k \<notin> ?K) l @ filter (\<lambda>p. p \<noteq> ([], [])) ?D) @ ?D"
    by (rule writeParams_replace [OF assms(1)])
  also have "\<dots> = filter (\<lambda>(k, v). k \<notin> ?K) l @ ?D"
    by (simp only: filter_append filter_keys_twice 2 append_Nil2)
  finally show ?thesis by (simp only: w1)
qed

lemma query_placement_idem:
  assumes "wellFormed s" and "([], []) \<notin> set (searchParams u)"
    and "agreeForQuery u' (queryResult u s False)"
  shows "appendToQuery u' s False = appendToQuery u s False"
proof -
  have "appendToQuery u' s False = appendToQuery (queryResult u s False) s False"
    using assms(3) by (rule appendToQuery_agree)
  also have "\<dots> = appendToQuery u s False"
    using written_again [OF assms(1,2)] fragment_block_idem [OF hash_queryResult [of u s False]]
    by (simp add: appendToQuery_eq [of "queryResult u s False"] appendToQuery_eq [of u]
          queryResult_fields searchParams_queryResult)
  finally show ?thesis .
qed

lemma anyUtmKey_prefix: "isAnyUtmKey k \<Longrightarrow> take 3 k = ''utm''"
proof -
  assume "isAnyUtmKey k"
  then consider "take 4 k = ''utm_''" | "take 3 k = ''utm''"
    by (auto simp: isAnyUtmKey_def isSnakeCaseUtmKey_def isCamelCaseUtmKey_def startsWith_def
          eval_nat_numeral split: if_splits)
  then show ?thesis
  proof cases
    case 1
    then have "take 3 (take 4 k) = take 3 ''utm_''" by simp
    then show ?thesis by (simp add: eval_nat_numeral)
  next
    case 2
    then show ?thesis .
  qed
qed

lemma toSnakeCase_nonempty: "take 3 k = ''utm'' \<Longrightarrow> toSnakeCase k \<noteq> []"
proof -
  assume a: "take 3 k = ''utm''"
  then have k: "k \<noteq> []" by auto
  show ?thesis
  proof (cases "map_of CAMEL_TO_SNAKE k")
    case None
    then show ?thesis using k by (simp add: toSnakeCase_def)
  next
    case (Some v)
    then have "(k, v) \<in> set CAMEL_TO_SNAKE" by (rule map_of_SomeD)
    then have "v \<noteq> []" by (auto simp: CAMEL_TO_SNAKE_def)
    then show ?thesis using Some by (simp add: toSnakeCase_def)
  qed
qed

lemma hasValid_key:
  assumes "hasValidUtmEntries p"
  shows "\<exists>k v. (k, v) \<in> set (toSnakeCaseParams p) \<and> k \<noteq> []"
proof -
  from assms obtain k v where kv: "(k, Some v) \<in> set p" "isAnyUtmKey k"
    by (auto simp: hasValidUtmEntries_def list_ex_iff)
  from kv(1) have "toSnakeCase k \<in> fst ` set (toSnakeCaseParams p)"
    unfolding toSnakeCaseParams_def convertParams_keys by auto
  moreover have "toSnakeCase k \<noteq> []"
    using kv(2) by (intro toSnakeCase_nonempty anyUtmKey_prefix)
  ultimately show ?thesis by force
qed

lemma fragment_written_nonempty:
  assumes "hasValidUtmEntries p"
  shows "buildQueryString (writeParams (toSnakeCaseParams p) False l) \<noteq> []"
proof -
  let ?s = "toSnakeCaseParams p"
  have wf: "wellFormed ?s" by (simp add: toSnakeCaseParams_def convertParams_wellFormed)
  from hasValid_key [OF assms] obtain k v where kv: "(k, v) \<in> set ?s" "k \<noteq> []" by blast
  then have "(k, the v) \<in> set (writeParams ?s False l)"
    by (force simp: writeParams_replace [OF wf])
  then show ?thesis using kv(2) by (rule buildQueryString_nonempty)
qed

lemma fragment_placement_idem:
  assumes "hasValidUtmEntries p"
    and "([], []) \<notin> set (new_URLSearchParams (drop 1 (hash u)))"
  shows "fragmentResult (fragmentResult u (toSnakeCaseParams p) False) (toSnakeCaseParams p) False =
         fragmentResult u (toSnakeCaseParams p) False"
proof -
  let ?s = "toSnakeCaseParams p"
  let ?l = "new_URLSearchParams (drop 1 (hash u))"
  let ?fs = "buildQueryString (writeParams ?s False ?l)"
  let ?w = "fragmentResult u ?s False"
  have wf: "wellFormed ?s" by (simp add: toSnakeCaseParams_def convertParams_wellFormed)
  have ne: "?s \<noteq> []" by (rule hasValid_nonempty [OF assms(1)])
  have fs: "?fs \<noteq> []" by (rule fragment_written_nonempty [OF assms(1)])
  have w: "?w = (removeFromQuery u ?s)\<lparr>fragment := Some ?fs\<rparr>"
    using fs by (rule fragmentResult_written)
  have hw: "hash ?w = ''#'' @ ?fs"
    using fs by (simp add: w hash_def)
  have "new_URLSearchParams (drop 1 (hash ?w)) = filter (\<lambda>p. p \<noteq> ([], [])) (writeParams ?s False ?l)"
    using buildQueryString_no_question [of "writeParams ?s False ?l"]
    by (simp add: hw new_URLSearchParams_def urlencoded_parse_buildQueryString)
  then have again: "writeParams ?s False (new_URLSearchParams (drop 1 (hash ?w))) = writeParams ?s False ?l"
    using written_again [OF wf assms(2)] by simp
  have q: "removeFromQuery ?w ?s = ?w"
    using ne
    by (simp add: removeFromQuery_cases searchParams_fragmentResult filter_keys_twice)
       (simp add: w removeFromQuery_cases update_query_def Let_def)
  have fs2: "buildQueryString (writeParams ?s False (new_URLSearchParams (drop 1 (hash ?w)))) \<noteq> []"
    unfolding again by (rule fs)
  have "fragmentResult ?w ?s False = (removeFromQuery ?w ?s)\<lparr>fragment := Some ?fs\<rparr>"
    using fragmentResult_written [OF fs2] unfolding again .
  also have "\<dots> = ?w" by (simp add: q) (simp add: w)
  finally show ?thesis .
qed

section \<open>C7: idempotence of injection\<close>

text \<open>
  C7, as stated: injecting the same parameters twice, with a fixed placement and without
  \<open>preserveExisting\<close>, gives the result of injecting once. The query \<open>?=\<close> holds one pair
  with empty name and empty value, which \<open>buildQueryString\<close> writes as the empty segment:
  the first injection returns \<open>?&utm_source=x\<close>, and the second, which reads no pair from the
  empty segment, returns \<open>?utm_source=x\<close>. Fragment placement does the same on \<open>#=\<close>.
\<close>

theorem injection_idempotent_counterexample:
  "parse_http_url ''https://example.com/?='' =
     Some \<lparr>scheme = ''https'', username = [], password = [], hostport = Some ''example.com'',
           path = ''/'', query = Some ''='', fragment = None\<rparr> \<and>
   appendUtmParameters parse_http_url ''https://example.com/?=''
     [(''utm_source'', Some ''x'')] \<lparr>toFragment = None, preserveExisting = None\<rparr> = ''https://example.com/?&utm_source=x'' \<and>
   parse_http_url ''https://example.com/?&utm_source=x'' =
     Some \<lparr>scheme = ''https'', username = [], password = [], hostport = Some ''example.com'',
           path = ''/'', query = Some ''&utm_source=x'', fragment = None\<rparr> \<and>
   appendUtmParameters parse_http_url ''https://example.com/?&utm_source=x''
     [(''utm_source'', Some ''x'')] \<lparr>toFragment = None, preserveExisting = None\<rparr> = ''https://example.com/?utm_source=x'' \<and>
   appendUtmParameters parse_http_url ''https://example.com/#=''
     [(''utm_source'', Some ''x'')] \<lparr>toFragment = Some True, preserveExisting = None\<rparr> = ''https://example.com/#&utm_source=x'' \<and>
   appendUtmParameters parse_http_url ''https://example.com/#&utm_source=x''
     [(''utm_source'', Some ''x'')] \<lparr>toFragment = Some True, preserveExisting = None\<rparr> = ''https://example.com/#utm_source=x''"
  by code_simp

text \<open>
  C7, amended: for a URL that parses, a parameter object with a valid UTM entry, a fixed
  placement and \<open>preserveExisting\<close> off, injecting twice gives the result of injecting once,
  provided that the target location of the parsed URL holds no pair with empty name and
  empty value, and that the parser reads the first result back as it was written: for
  query placement a URL object with the protocol, host, path, decoded query pairs and hash
  of the written URL, for fragment placement the URL object that was serialized.
\<close>

theorem injection_idempotent:
  assumes "parse url = Some u" and "hasValidUtmEntries p"
    and "orDefault (preserveExisting opts) False = False"
  shows "(orDefault (toFragment opts) False = False \<and>
          ([], []) \<notin> set (searchParams u) \<and>
          (\<exists>u'. parse (appendUtmParameters parse url p opts) = Some u' \<and>
                agreeForQuery u' (queryResult u (toSnakeCaseParams p) False)) \<longrightarrow>
            appendUtmParameters parse (appendUtmParameters parse url p opts) p opts =
            appendUtmParameters parse url p opts) \<and>
         (orDefault (toFragment opts) False = True \<and>
          ([], []) \<notin> set (new_URLSearchParams (drop 1 (hash u))) \<and>
          parse (appendUtmParameters parse url p opts) =
            Some (fragmentResult u (toSnakeCaseParams p) False) \<longrightarrow>
            appendUtmParameters parse (appendUtmParameters parse url p opts) p opts =
            appendUtmParameters parse url p opts)"
proof -
  let ?s = "toSnakeCaseParams p"
  let ?r = "appendUtmParameters parse url p opts"
  have wf: "wellFormed ?s" by (simp add: toSnakeCaseParams_def convertParams_wellFormed)
  have 1: "appendUtmParameters parse ?r p opts = ?r"
    if tf: "orDefault (toFragment opts) False = False"
      and e: "([], []) \<notin> set (searchParams u)"
      and rb: "parse ?r = Some u'" "agreeForQuery u' (queryResult u ?s False)" for u'
  proof -
    have r: "?r = appendToQuery u ?s False"
      using assms tf by (simp add: appendUtmParameters_def)
    have "appendUtmParameters parse ?r p opts = appendToQuery u' ?s False"
      using assms(2,3) tf rb(1) by (simp add: appendUtmParameters_def)
    also have "\<dots> = appendToQuery u ?s False"
      by (rule query_placement_idem [OF wf e rb(2)])
    finally show ?thesis by (simp only: r)
  qed
  have 2: "appendUtmParameters parse ?r p opts = ?r"
    if tf: "orDefault (toFragment opts) False = True"
      and e: "([], []) \<notin> set (new_URLSearchParams (drop 1 (hash u)))"
      and rb: "parse ?r = Some (fragmentResult u ?s False)"
  proof -
    have r: "?r = URL_toString (fragmentResult u ?s False)"
      using assms tf by (simp add: appendUtmParameters_def appendToFragment_def)
    have "appendUtmParameters parse ?r p opts =
            URL_toString (fragmentResult (fragmentResult u ?s False) ?s False)"
      using assms(2,3) tf rb by (simp add: appendUtmParameters_def appendToFragment_def)
    also have "\<dots> = URL_toString (fragmentResult u ?s False)"
      by (simp only: fragment_placement_idem [OF assms(2) e])
    finally show ?thesis by (simp only: r)
  qed
  show ?thesis using 1 2 by blast
qed

theorem injection_idempotent_witness:
  "parse_http_url ''https://example.com/?ref=abc#section'' = Some \<lparr>scheme = ''https'', username = [], password = [], hostport = Some ''example.com'',
           path = ''/'', query = Some ''ref=abc'', fragment = Some ''section''\<rparr> \<and>
   hasValidUtmEntries [(''utmSource'', Some ''a b'')] \<and>
   ([], []) \<notin> set (searchParams \<lparr>scheme = ''https'', username = [], password = [], hostport = Some ''example.com'',
           path = ''/'', query = Some ''ref=abc'', fragment = Some ''section''\<rparr>) \<and>
   appendUtmParameters parse_http_url ''https://example.com/?ref=abc#section'' [(''utmSource'', Some ''a b'')] \<lparr>toFragment = None, preserveExisting = None\<rparr> =
     ''https://example.com/?ref=abc&utm_source=a%20b#section'' \<and>
   appendUtmParameters parse_http_url ''https://example.com/?ref=abc&utm_source=a%20b#section'' [(''utmSource'', Some ''a b'')] \<lparr>toFragment = None, preserveExisting = None\<rparr> =
     ''https://example.com/?ref=abc&utm_source=a%20b#section'' \<and>
   parse_http_url ''https://example.com/?ref=abc'' = Some \<lparr>scheme = ''https'', username = [], password = [], hostport = Some ''example.com'',
           path = ''/'', query = Some ''ref=abc'', fragment = None\<rparr> \<and>
   ([], []) \<notin> set (new_URLSearchParams (drop 1 (hash \<lparr>scheme = ''https'', username = [], password = [], hostport = Some ''example.com'',
           path = ''/'', query = Some ''ref=abc'', fragment = None\<rparr>))) \<and>
   appendUtmParameters parse_http_url ''https://example.com/?ref=abc'' [(''utmSource'', Some ''a b'')] \<lparr>toFragment = Some True, preserveExisting = None\<rparr> =
     ''https://example.com/?ref=abc#utm_source=a%20b'' \<and>
   appendUtmParameters parse_http_url ''https://example.com/?ref=abc#utm_source=a%20b'' [(''utmSource'', Some ''a b'')] \<lparr>toFragment = Some True, preserveExisting = None\<rparr> =
     ''https://example.com/?ref=abc#utm_source=a%20b''"
proof -
  have p1: "parse_http_url ''https://example.com/?ref=abc#section'' = Some \<lparr>scheme = ''https'', username = [], password = [], hostport = Some ''example.com'',
           path = ''/'', query = Some ''ref=abc'', fragment = Some ''section''\<rparr>"
    by code_simp
  have v: "hasValidUtmEntries [(''utmSource'', Some ''a b'')]"
    by code_simp
  have e1: "([], []) \<notin> set (searchParams \<lparr>scheme = ''https'', username = [], password = [], hostport = Some ''example.com'',
           path = ''/'', query = Some ''ref=abc'', fragment = Some ''section''\<rparr>)"
    by code_simp
  have r1: "appendUtmParameters parse_http_url ''https://example.com/?ref=abc#section'' [(''utmSource'', Some ''a b'')] \<lparr>toFragment = None, preserveExisting = None\<rparr> =
     ''https://example.com/?ref=abc&utm_source=a%20b#section''"
    by code_simp
  have b1p: "parse_http_url ''https://example.com/?ref=abc&utm_source=a%20b#section'' = Some \<lparr>scheme = ''https'', username = [], password = [], hostport = Some ''example.com'',
           path = ''/'', query = Some ''ref=abc&utm_source=a%20b'', fragment = Some ''section''\<rparr>"
    by code_simp
  have b1a: "agreeForQuery \<lparr>scheme = ''https'', username = [], password = [], hostport = Some ''example.com'',
           path = ''/'', query = Some ''ref=abc&utm_source=a%20b'', fragment = Some ''section''\<rparr>
      (queryResult \<lparr>scheme = ''https'', username = [], password = [], hostport = Some ''example.com'',
           path = ''/'', query = Some ''ref=abc'', fragment = Some ''section''\<rparr> (toSnakeCaseParams [(''utmSource'', Some ''a b'')]) False)"
    by code_simp
  have b1: "\<exists>u'. parse_http_url ''https://example.com/?ref=abc&utm_source=a%20b#section'' = Some u' \<and>
      agreeForQuery u' (queryResult \<lparr>scheme = ''https'', username = [], password = [], hostport = Some ''example.com'',
           path = ''/'', query = Some ''ref=abc'', fragment = Some ''section''\<rparr> (toSnakeCaseParams [(''utmSource'', Some ''a b'')]) False)"
    using b1p b1a by blast
  have i1: "appendUtmParameters parse_http_url ''https://example.com/?ref=abc&utm_source=a%20b#section'' [(''utmSource'', Some ''a b'')] \<lparr>toFragment = None, preserveExisting = None\<rparr> =
     ''https://example.com/?ref=abc&utm_source=a%20b#section''"
    using injection_idempotent
      [where parse = parse_http_url and url = "''https://example.com/?ref=abc#section''"
         and opts = "\<lparr>toFragment = None, preserveExisting = None\<rparr>", OF p1 v] e1 b1
    by (simp add: orDefault_def r1)
  have p2: "parse_http_url ''https://example.com/?ref=abc'' = Some \<lparr>scheme = ''https'', username = [], password = [], hostport = Some ''example.com'',
           path = ''/'', query = Some ''ref=abc'', fragment = None\<rparr>"
    by code_simp
  have e2: "([], []) \<notin> set (new_URLSearchParams (drop 1 (hash \<lparr>scheme = ''https'', username = [], password = [], hostport = Some ''example.com'',
           path = ''/'', query = Some ''ref=abc'', fragment = None\<rparr>)))"
    by code_simp
  have r2: "appendUtmParameters parse_http_url ''https://example.com/?ref=abc'' [(''utmSource'', Some ''a b'')] \<lparr>toFragment = Some True, preserveExisting = None\<rparr> =
     ''https://example.com/?ref=abc#utm_source=a%20b''"
    by code_simp
  have b2: "parse_http_url ''https://example.com/?ref=abc#utm_source=a%20b'' =
      Some (fragmentResult \<lparr>scheme = ''https'', username = [], password = [], hostport = Some ''example.com'',
           path = ''/'', query = Some ''ref=abc'', fragment = None\<rparr> (toSnakeCaseParams [(''utmSource'', Some ''a b'')]) False)"
    by code_simp
  have i2: "appendUtmParameters parse_http_url ''https://example.com/?ref=abc#utm_source=a%20b'' [(''utmSource'', Some ''a b'')] \<lparr>toFragment = Some True, preserveExisting = None\<rparr> =
     ''https://example.com/?ref=abc#utm_source=a%20b''"
    using injection_idempotent
      [where parse = parse_http_url and url = "''https://example.com/?ref=abc''"
         and opts = "\<lparr>toFragment = Some True, preserveExisting = None\<rparr>", OF p2 v] e2 b2
    by (simp add: orDefault_def r2)
  show ?thesis using p1 v e1 r1 i1 p2 e2 r2 i2 by blast
qed

section \<open>Converting twice: lemmas\<close>

lemma convertParams_convertWith:
  "convertParams p fmt = convertWith (if fmt = snake_case then toSnakeCase else toCamelCase) p []"
  by (simp add: convertParams_def convertWith_def)

lemma convertWith_Nil: "convertWith f [] acc = acc"
  by (simp add: convertWith_def)

lemma convertWith_Cons:
  "convertWith f ((k, v) # p) acc =
     convertWith f p (case v of None \<Rightarrow> acc | Some x \<Rightarrow> obj_set acc (f k) (Some x))"
  by (simp add: convertWith_def)

lemma obj_set_new: "k \<notin> fst ` set acc \<Longrightarrow> obj_set acc k v = acc @ [(k, v)]"
  by (induction acc k v rule: obj_set.induct) auto

lemma definedEntries_set: "set (definedEntries p) = {e \<in> set p. snd e \<noteq> None}"
  by (induction p rule: definedEntries.induct) auto

lemma convertWith_distinct:
  "distinct (map f (map fst (definedEntries p))) \<Longrightarrow>
   f ` fst ` set (definedEntries p) \<inter> fst ` set acc = {} \<Longrightarrow>
   convertWith f p acc = acc @ map (\<lambda>(k, v). (f k, v)) (definedEntries p)"
proof (induction p arbitrary: acc rule: definedEntries.induct)
  case 1
  then show ?case by (simp add: convertWith_Nil)
next
  case (2 k p)
  then show ?case by (simp add: convertWith_Cons)
next
  case (3 k x p)
  from "3.prems"(2) have new: "f k \<notin> fst ` set acc" by auto
  have d: "distinct (map f (map fst (definedEntries p)))"
    using "3.prems"(1) by simp
  have i: "f ` fst ` set (definedEntries p) \<inter> fst ` set (acc @ [(f k, Some x)]) = {}"
    using "3.prems" by (auto simp: image_iff)
  show ?case
    using "3.IH" [OF d i] by (simp add: convertWith_Cons obj_set_new [OF new])
qed

lemma convertWith_map:
  "convertWith f (map (\<lambda>(k, v). (g k, v)) q) acc = convertWith (\<lambda>k. f (g k)) q acc"
proof (induction q arbitrary: acc)
  case Nil
  then show ?case by (simp add: convertWith_Nil)
next
  case (Cons e q)
  obtain k v where e: "e = (k, v)" by (cases e)
  show ?case by (simp add: e convertWith_Cons Cons)
qed

lemma convertWith_defined: "convertWith f (definedEntries q) acc = convertWith f q acc"
  by (induction q arbitrary: acc rule: definedEntries.induct)
     (simp_all add: convertWith_Cons)

lemma convertWith_cong:
  "(\<And>k. k \<in> fst ` set (definedEntries q) \<Longrightarrow> f k = g k) \<Longrightarrow>
   convertWith f q acc = convertWith g q acc"
proof (induction q arbitrary: acc rule: definedEntries.induct)
  case 1
  then show ?case by (simp add: convertWith_Nil)
next
  case (2 k p)
  then show ?case by (simp add: convertWith_Cons)
next
  case (3 k x p)
  have "f k = g k" using "3.prems" [of k] by simp
  moreover have "convertWith f p a = convertWith g p a" for a
    using "3.prems" by (intro "3.IH") auto
  ultimately show ?case by (simp add: convertWith_Cons)
qed

lemma convert_twice:
  assumes "distinct (map g (map fst (definedEntries p)))"
  shows "convertWith f (convertWith g p []) [] = convertWith (\<lambda>k. f (g k)) p []"
proof -
  have "convertWith g p [] = map (\<lambda>(k, v). (g k, v)) (definedEntries p)"
    using convertWith_distinct [OF assms, of "[]"] by simp
  then show ?thesis by (simp add: convertWith_map convertWith_defined)
qed

lemma definedEntries_wellFormed: "wellFormed q \<Longrightarrow> definedEntries q = q"
  by (induction q rule: definedEntries.induct) (auto simp: wellFormed_def)

lemma convert_fixed:
  assumes "wellFormed q" and "\<And>k. k \<in> fst ` set q \<Longrightarrow> f k = k"
  shows "convertWith f q [] = q"
proof -
  have all: "definedEntries q = q" by (rule definedEntries_wellFormed [OF assms(1)])
  have "convertWith f q [] = convertWith (\<lambda>k. k) q []"
    using assms(2) by (intro convertWith_cong) (simp add: all)
  also have "\<dots> = [] @ map (\<lambda>(k, v). (k, v)) (definedEntries q)"
    using assms(1) by (intro convertWith_distinct) (simp_all add: all wellFormed_def)
  finally show ?thesis by (simp add: all)
qed

lemma toLowerChar_not_upper: "\<not> isUpperAZ (toLowerChar c)"
  using isLower_toLower [of c] lower_not_upper [of "toLowerChar c"]
  by (cases "isUpperAZ c") (auto simp: toLower_id)

lemma underscoreUpper_id: "\<forall>c \<in> set s. \<not> isUpperAZ c \<Longrightarrow> underscoreUpper s = s"
  by (induction s) auto

lemma toLowerCase_id: "\<forall>c \<in> set s. \<not> isUpperAZ c \<Longrightarrow> toLowerCase s = s"
  by (auto simp: toLowerCase_def toLower_id intro: map_idI)

lemma toLowerCase_no_upper: "\<forall>c \<in> set (toLowerCase s). \<not> isUpperAZ c"
  by (auto simp: toLowerCase_def toLowerChar_not_upper)

lemma CAMEL_TO_SNAKE_fixed: "list_all (\<lambda>(k, v). toSnakeCase v = v) CAMEL_TO_SNAKE"
  by code_simp

lemma toSnakeCase_idem: "toSnakeCase (toSnakeCase k) = toSnakeCase k"
proof (cases "map_of CAMEL_TO_SNAKE k")
  case (Some v)
  then have "(k, v) \<in> set CAMEL_TO_SNAKE" by (rule map_of_SomeD)
  then have v: "toSnakeCase v = v" using CAMEL_TO_SNAKE_fixed by (auto simp: list_all_iff)
  have a: "toSnakeCase k = v" using Some by (simp add: toSnakeCase_def)
  show ?thesis by (simp only: a v)
next
  case None
  show ?thesis
  proof (cases "startsWith k ''utm'' \<and> length k > 3")
    case False
    then have a: "toSnakeCase k = k" using None by (auto simp: toSnakeCase_def)
    show ?thesis by (simp only: a)
  next
    case True
    define r where "r = toLowerCase (underscoreUpper (drop 3 k))"
    have 1: "toSnakeCase k = ''utm'' @ r"
      unfolding r_def by (rule toSnakeCase_generic) (use True in simp_all)
    have "r \<noteq> []" unfolding r_def using True by (cases "drop 3 k") (auto simp: toLowerCase_def)
    then have 2: "toSnakeCase (''utm'' @ r) = ''utm'' @ toLowerCase (underscoreUpper r)"
      using toSnakeCase_generic [of "''utm'' @ r"] by (simp add: startsWith_def)
    have n: "\<forall>c \<in> set r. \<not> isUpperAZ c"
      unfolding r_def by (rule toLowerCase_no_upper)
    have "underscoreUpper r = r" by (rule underscoreUpper_id [OF n])
    moreover have "toLowerCase r = r" by (rule toLowerCase_id [OF n])
    ultimately have 3: "toLowerCase (underscoreUpper r) = r" by (simp only:)
    show ?thesis by (simp only: 1 2 3)
  qed
qed

lemma toSnakeCase_utm: "isUtmKey k \<Longrightarrow> isSnakeCaseUtmKey (toSnakeCase k)"
proof -
  assume "isUtmKey k"
  then consider (snake) "isSnakeCaseUtmKey k" | (camel) "isCamelCaseUtmKey k"
    by (auto simp: isUtmKey_def)
  then show ?thesis
  proof cases
    case snake
    then have "take 4 k = ''utm_''"
      by (simp add: isSnakeCaseUtmKey_def startsWith_def eval_nat_numeral)
    then have k: "k = ''utm_'' @ drop 4 k" by (metis append_take_drop_id)
    have "toSnakeCase (''utm_'' @ drop 4 k) =
            ''utm'' @ toLowerCase (underscoreUpper (drop 3 (''utm_'' @ drop 4 k)))"
      by (rule toSnakeCase_generic) (simp_all add: startsWith_def)
    then have "isSnakeCaseUtmKey (toSnakeCase (''utm_'' @ drop 4 k))"
      by (simp add: isSnakeCaseUtmKey_def startsWith_def toLowerCase_def toLower_underscore
            underscore_no_letter)
    then show ?thesis by (simp only: k [symmetric])
  next
    case camel
    then have sw: "startsWith k ''utm''" and len: "length k > 3" and up: "isUpperAZ (k ! 3)"
      by (auto simp: isCamelCaseUtmKey_def split: if_splits)
    from sw have "take 3 k = ''utm''" by (simp add: startsWith_def eval_nat_numeral)
    then have "k = ''utm'' @ drop 3 k" by (metis append_take_drop_id)
    moreover from len obtain c r where "drop 3 k = c # r" by (cases "drop 3 k") auto
    ultimately have k: "k = ''utm'' @ c # r" by simp
    with up have c: "isUpperAZ c" by simp
    have "toSnakeCase (''utm'' @ c # r) =
            ''utm'' @ toLowerCase (underscoreUpper (drop 3 (''utm'' @ c # r)))"
      by (rule toSnakeCase_generic) (simp_all add: startsWith_def)
    then have "isSnakeCaseUtmKey (toSnakeCase (''utm'' @ c # r))"
      using c by (simp add: isSnakeCaseUtmKey_def startsWith_def toLowerCase_def toLower_underscore)
    then show ?thesis by (simp only: k [symmetric])
  qed
qed

lemma convertParams_snake_idem: "convertParams (convertParams p snake_case) snake_case = convertParams p snake_case"
proof -
  let ?q = "convertParams p snake_case"
  have wf: "wellFormed ?q" by (rule convertParams_wellFormed)
  have "toSnakeCase k = k" if "k \<in> fst ` set ?q" for k
    using that unfolding convertParams_keys by (auto simp: toSnakeCase_idem)
  then have "convertWith toSnakeCase ?q [] = ?q"
    by (rule convert_fixed [OF wf])
  then show ?thesis by (simp add: convertParams_convertWith [of ?q])
qed

lemma convertParams_via_snake:
  assumes "keysSurviveStorage p"
  shows "convertParams (convertParams p snake_case) camelCase = convertParams p camelCase"
proof -
  from assms have d: "distinct (map toSnakeCase (map fst (definedEntries p)))"
    and c: "\<And>k. k \<in> fst ` set (definedEntries p) \<Longrightarrow> toCamelCase (toSnakeCase k) = toCamelCase k"
    by (auto simp: keysSurviveStorage_def list_all_iff)
  have "convertWith toCamelCase (convertWith toSnakeCase p []) [] =
        convertWith (\<lambda>k. toCamelCase (toSnakeCase k)) p []"
    by (rule convert_twice [OF d])
  also have "\<dots> = convertWith toCamelCase p []"
    by (rule convertWith_cong) (rule c)
  finally show ?thesis by (simp add: convertParams_convertWith)
qed

lemma jsonOf_wellFormed:
  "wellFormed q \<Longrightarrow> jsonOf q = JObj (map (\<lambda>(k, v). (k, JStr (the v))) q)"
proof -
  assume "wellFormed q"
  then have "list_all (\<lambda>(k, v). v \<noteq> None) q" by (simp add: wellFormed_def)
  then have "concat (map (\<lambda>(key, value). case value of None \<Rightarrow> [] | Some v \<Rightarrow> [(key, JStr v)]) q) =
             map (\<lambda>(k, v). (k, JStr (the v))) q"
    by (induction q) auto
  then show ?thesis by (simp add: jsonOf_def)
qed

lemma stored_valid:
  assumes "isValidUtmParameters p None"
  shows "isValidStoredData (jsonOf (convertParams p snake_case)) None"
proof -
  let ?q = "convertParams p snake_case"
  have "isUtmKey k" if "k \<in> fst ` set ?q" for k
  proof -
    from that obtain k0 v where kv: "(k0, Some v) \<in> set p" and k: "k = toSnakeCase k0"
      unfolding convertParams_keys by auto
    from kv have "p \<noteq> []" by auto
    with assms kv have "isUtmKey k0"
      by (auto simp: isValidUtmParameters_def list_all_iff)
    then show ?thesis using toSnakeCase_utm k by (simp add: isUtmKey_def)
  qed
  then show ?thesis
    unfolding jsonOf_wellFormed [OF convertParams_wellFormed]
    by (auto simp: isValidStoredData_def list_all_iff image_iff) force
qed

lemma stored_read: "wellFormed q \<Longrightarrow> asUtmParameters (jsonOf q) = q"
  by (auto simp: jsonOf_wellFormed asUtmParameters_def wellFormed_def list_all_iff intro!: map_idI)

section \<open>C2: reading back what was stored\<close>

text \<open>
  C2, as stated: after \<open>storeUtmParameters(p, {storageKey: s})\<close>, reading the slot with key
  format \<open>f\<close> returns \<open>p\<close> converted to \<open>f\<close>. The object is stored in the underscore form, and
  the valid compact key \<open>utmA_b\<close> is stored as \<open>utm_a_b\<close>, which reads back in the compact
  form as \<open>utmAB\<close>, while \<open>p\<close> converted to the compact form keeps \<open>utmA_b\<close>. The slot
  \<open>__utm_test__\<close> is the one that the availability probe writes and removes, so that
  nothing stored there is read back.
\<close>

theorem store_then_get_counterexample:
  \<open>isValidUtmParameters [(''utmA_b'', Some ''x'')] None \<and>
   items (storeUtmParameters \<lparr>present = True, blocked = False, items = Map.empty\<rparr> [(''utmA_b'', Some ''x'')]
            \<lparr>storageKey = Some ''slot'', storage_keyFormat = None\<rparr>) ''slot'' = Some ''{"utm_a_b":"x"}'' \<and>
   parse_json ''{"utm_a_b":"x"}'' = Some (JObj [(''utm_a_b'', JStr ''x'')]) \<and>
   fst (getStoredUtmParameters parse_json
          (storeUtmParameters \<lparr>present = True, blocked = False, items = Map.empty\<rparr> [(''utmA_b'', Some ''x'')]
             \<lparr>storageKey = Some ''slot'', storage_keyFormat = None\<rparr>)
          \<lparr>storageKey = Some ''slot'', storage_keyFormat = Some camelCase\<rparr>) = Some [(''utmAB'', Some ''x'')] \<and>
   convertParams [(''utmA_b'', Some ''x'')] camelCase = [(''utmA_b'', Some ''x'')] \<and>
   isValidUtmParameters [(''utm_source'', Some ''x'')] None \<and>
   fst (getStoredUtmParameters parse_json
          (storeUtmParameters \<lparr>present = True, blocked = False, items = Map.empty\<rparr> [(''utm_source'', Some ''x'')]
             \<lparr>storageKey = Some ''__utm_test__'', storage_keyFormat = None\<rparr>)
          \<lparr>storageKey = Some ''__utm_test__'', storage_keyFormat = Some snake_case\<rparr>) = None \<and>
   convertParams [(''utm_source'', Some ''x'')] snake_case = [(''utm_source'', Some ''x'')]\<close>
  by code_simp

text \<open>
  C2, amended: for a working store, a JSON parser that reads back what \<open>JSON.stringify\<close>
  wrote, a non-empty valid parameter object \<open>p\<close> with ASCII keys and a slot \<open>s\<close> other than
  \<open>__utm_test__\<close>, reading the slot with key format \<open>f\<close> after storing \<open>p\<close> returns \<open>p\<close>
  converted to the underscore form and then to \<open>f\<close>. That is \<open>p\<close> converted to \<open>f\<close> when \<open>f\<close>
  is the underscore form, and for the compact form when the keys of \<open>p\<close> survive storage:
  they stay distinct in the underscore form and the compact form of each is not changed
  by the passage through the underscore form.
\<close>

theorem store_then_get:
  assumes "present st" and "\<not> blocked st"
    and "length p > 0" and "isValidUtmParameters p None" and "asciiKeys p"
    and "s \<noteq> ''__utm_test__''"
    and "JSON_parse (JSON_stringify (convertParams p snake_case)) =
           Some (jsonOf (convertParams p snake_case))"
  shows "fst (getStoredUtmParameters JSON_parse
                (storeUtmParameters st p \<lparr>storageKey = Some s, storage_keyFormat = None\<rparr>)
                \<lparr>storageKey = Some s, storage_keyFormat = Some f\<rparr>)
           = Some (convertParams (convertParams p snake_case) f) \<and>
         (f = snake_case \<or> keysSurviveStorage p \<longrightarrow>
            fst (getStoredUtmParameters JSON_parse
                   (storeUtmParameters st p \<lparr>storageKey = Some s, storage_keyFormat = None\<rparr>)
                   \<lparr>storageKey = Some s, storage_keyFormat = Some f\<rparr>)
              = Some (convertParams p f))"
proof -
  let ?q = "convertParams p snake_case"
  let ?st1 = "storeUtmParameters st p \<lparr>storageKey = Some s, storage_keyFormat = None\<rparr>"
  have st1: "present ?st1" "\<not> blocked ?st1" "items ?st1 s = Some (JSON_stringify ?q)"
    using assms(1,2,3)
    by (simp_all add: storeUtmParameters_def isStorageAvailable_def orDefault_def Let_def)
  have 1: "fst (getStoredUtmParameters JSON_parse ?st1
                  \<lparr>storageKey = Some s, storage_keyFormat = Some f\<rparr>) = Some (convertParams ?q f)"
    using st1 assms(6,7) stored_valid [OF assms(4)] stored_read [OF convertParams_wellFormed [of p snake_case]]
    by (simp add: getStoredUtmParameters_def isStorageAvailable_def orDefault_def Let_def)
  have 2: "convertParams ?q f = convertParams p f" if "f = snake_case \<or> keysSurviveStorage p"
    using that convertParams_snake_idem [of p] convertParams_via_snake [of p]
    by (cases f) auto
  show ?thesis using 1 2 by simp
qed

theorem store_then_get_witness:
  \<open>present \<lparr>present = True, blocked = False, items = Map.empty\<rparr> \<and> \<not> blocked \<lparr>present = True, blocked = False, items = Map.empty\<rparr> \<and>
   length [(''utmSource'', Some ''test''), (''utm_medium'', Some ''email'')] > 0 \<and> isValidUtmParameters [(''utmSource'', Some ''test''), (''utm_medium'', Some ''email'')] None \<and> asciiKeys [(''utmSource'', Some ''test''), (''utm_medium'', Some ''email'')] \<and>
   ''utm_parameters'' \<noteq> ''__utm_test__'' \<and>
   parse_json (JSON_stringify (convertParams [(''utmSource'', Some ''test''), (''utm_medium'', Some ''email'')] snake_case)) =
     Some (jsonOf (convertParams [(''utmSource'', Some ''test''), (''utm_medium'', Some ''email'')] snake_case)) \<and>
   keysSurviveStorage [(''utmSource'', Some ''test''), (''utm_medium'', Some ''email'')] \<and>
   fst (getStoredUtmParameters parse_json
          (storeUtmParameters \<lparr>present = True, blocked = False, items = Map.empty\<rparr> [(''utmSource'', Some ''test''), (''utm_medium'', Some ''email'')]
             \<lparr>storageKey = Some ''utm_parameters'', storage_keyFormat = None\<rparr>)
          \<lparr>storageKey = Some ''utm_parameters'', storage_keyFormat = Some camelCase\<rparr>) =
     Some [(''utmSource'', Some ''test''), (''utmMedium'', Some ''email'')] \<and>
   convertParams [(''utmSource'', Some ''test''), (''utm_medium'', Some ''email'')] camelCase = [(''utmSource'', Some ''test''), (''utmMedium'', Some ''email'')]\<close>
proof -
  have h1: "length [(''utmSource'', Some ''test''), (''utm_medium'', Some ''email'')] > 0 \<and> isValidUtmParameters [(''utmSource'', Some ''test''), (''utm_medium'', Some ''email'')] None \<and> asciiKeys [(''utmSource'', Some ''test''), (''utm_medium'', Some ''email'')]"
    by code_simp
  have h2: "''utm_parameters'' \<noteq> ''__utm_test__''"
    by simp
  have h3: "parse_json (JSON_stringify (convertParams [(''utmSource'', Some ''test''), (''utm_medium'', Some ''email'')] snake_case)) =
     Some (jsonOf (convertParams [(''utmSource'', Some ''test''), (''utm_medium'', Some ''email'')] snake_case))"
    by code_simp
  have h4: "keysSurviveStorage [(''utmSource'', Some ''test''), (''utm_medium'', Some ''email'')]"
    by code_simp
  have c: "convertParams [(''utmSource'', Some ''test''), (''utm_medium'', Some ''email'')] camelCase = [(''utmSource'', Some ''test''), (''utmMedium'', Some ''email'')]"
    by code_simp
  have r: "fst (getStoredUtmParameters parse_json
          (storeUtmParameters \<lparr>present = True, blocked = False, items = Map.empty\<rparr> [(''utmSource'', Some ''test''), (''utm_medium'', Some ''email'')]
             \<lparr>storageKey = Some ''utm_parameters'', storage_keyFormat = None\<rparr>)
          \<lparr>storageKey = Some ''utm_parameters'', storage_keyFormat = Some camelCase\<rparr>) =
     Some [(''utmSource'', Some ''test''), (''utmMedium'', Some ''email'')]"
  proof -
    have hp: "present \<lparr>present = True, blocked = False, items = Map.empty\<rparr>" and hb: "\<not> blocked \<lparr>present = True, blocked = False, items = Map.empty\<rparr>"
      by simp_all
    from h1 have hl: "length [(''utmSource'', Some ''test''), (''utm_medium'', Some ''email'')] > 0" and hv: "isValidUtmParameters [(''utmSource'', Some ''test''), (''utm_medium'', Some ''email'')] None"
      and ha: "asciiKeys [(''utmSource'', Some ''test''), (''utm_medium'', Some ''email'')]"
      by blast+
    note t = store_then_get
      [where st = "\<lparr>present = True, blocked = False, items = Map.empty\<rparr>" and p = "[(''utmSource'', Some ''test''), (''utm_medium'', Some ''email'')]" and s = "''utm_parameters''"
         and JSON_parse = parse_json and f = camelCase, OF hp hb hl hv ha h2 h3]
    from t h4 have "fst (getStoredUtmParameters parse_json
          (storeUtmParameters \<lparr>present = True, blocked = False, items = Map.empty\<rparr> [(''utmSource'', Some ''test''), (''utm_medium'', Some ''email'')]
             \<lparr>storageKey = Some ''utm_parameters'', storage_keyFormat = None\<rparr>)
          \<lparr>storageKey = Some ''utm_parameters'', storage_keyFormat = Some camelCase\<rparr>) =
        Some (convertParams [(''utmSource'', Some ''test''), (''utm_medium'', Some ''email'')] camelCase)"
      by blast
    then show ?thesis by (simp only: c)
  qed
  show ?thesis using h1 h2 h3 h4 c r by simp
qed

end
